theory Spec2Isabelle
  imports Complex_Main "HOL-Library.Word"
begin

section \<open>Strings of the host language\<close>

text \<open>
  The program is TypeScript. Its strings are sequences of UTF-16 code units: \<open>length\<close>
  and \<open>slice\<close> count code units, while \<open>for (const ch of s)\<close> walks code points, so that a
  high surrogate followed by a low surrogate is one step of such a loop and two units of
  \<open>length\<close>. A string is therefore a list of 16-bit words.
\<close>

type_synonym jchar = "16 word"
type_synonym jstr = "jchar list"

definition str :: "string \<Rightarrow> jstr" where
  \<comment> \<open>an ASCII literal as a host string\<close>
  "str s = map of_char s"

definition slice :: "'a list \<Rightarrow> int \<Rightarrow> int \<Rightarrow> 'a list" where
  \<comment> \<open>\<open>s.slice(from, to)\<close>: negative indices count from the end, both are clamped\<close>
  "slice xs s e =
     (let n = int (length xs);
          from = (if s < 0 then max (n + s) 0 else min s n);
          to = (if e < 0 then max (n + e) 0 else min e n)
      in take (nat (to - from)) (drop (nat from) xs))"

definition sliceFrom :: "'a list \<Rightarrow> int \<Rightarrow> 'a list" where
  \<comment> \<open>\<open>s.slice(from)\<close>\<close>
  "sliceFrom xs s = slice xs s (int (length xs))"

definition isHighSurrogate :: "jchar \<Rightarrow> bool" where
  "isHighSurrogate c \<longleftrightarrow> 0xD800 \<le> c \<and> c \<le> 0xDBFF"

definition isLowSurrogate :: "jchar \<Rightarrow> bool" where
  "isLowSurrogate c \<longleftrightarrow> 0xDC00 \<le> c \<and> c \<le> 0xDFFF"

fun codePoints :: "jstr \<Rightarrow> jstr list" where
  \<comment> \<open>the steps of \<open>for (const ch of s)\<close>: a surrogate pair is one step\<close>
  "codePoints [] = []"
| "codePoints [c] = [[c]]"
| "codePoints (c # d # cs) =
     (if isHighSurrogate c \<and> isLowSurrogate d then [c, d] # codePoints cs
      else [c] # codePoints (d # cs))"

section \<open>AnsiText: stripping, measuring and truncating styled text\<close>

definition isParam :: "jchar \<Rightarrow> bool" where
  \<comment> \<open>the character class \<open>[0-9;]\<close>\<close>
  "isParam c \<longleftrightarrow> (0x30 \<le> c \<and> c \<le> 0x39) \<or> c = 0x3B"

fun ansiAt :: "jstr \<Rightarrow> nat option" where
  \<comment> \<open>the regular expression \<open>\x1b\[[0-9;]*m\<close> anchored at the head of the string: the
      length of its match. The closing \<open>m\<close> is outside the class, so the greedy star has
      one way to match only.\<close>
  "ansiAt (e # b # cs) =
     (if e = 0x1B \<and> b = 0x5B then
        (case dropWhile isParam cs of
           [] \<Rightarrow> None
         | m # _ \<Rightarrow> if m = 0x6D then Some (length (takeWhile isParam cs) + 3) else None)
      else None)"
| "ansiAt _ = None"

lemma ansiAt_pos: "ansiAt xs = Some n \<Longrightarrow> 0 < n"
  by (induction xs rule: ansiAt.induct) (auto split: if_splits list.splits)

function stripAnsi :: "jstr \<Rightarrow> jstr" where
  \<comment> \<open>\<open>str.replace(/\x1b\[[0-9;]*m/g, "")\<close>: one pass, left to right\<close>
  "stripAnsi [] = []"
| "stripAnsi (c # cs) =
     (case ansiAt (c # cs) of
        Some n \<Rightarrow> stripAnsi (drop n (c # cs))
      | None \<Rightarrow> c # stripAnsi cs)"
  by pat_completeness auto
termination
  by (relation "measure length") (auto dest: ansiAt_pos)

definition visibleWidth :: "jstr \<Rightarrow> nat" where
  "visibleWidth s = length (stripAnsi s)"

definition RESET :: jstr where
  \<comment> \<open>the style-reset sequence \<open>\x1b[0m\<close>\<close>
  "RESET = 0x1B # str ''[0m''"

function matchAllFrom :: "nat \<Rightarrow> jstr \<Rightarrow> (nat \<times> jstr) list" where
  \<comment> \<open>the matches of the global regular expression in the rest of the text, each with
      its index in the whole text; the first argument is the index of the rest\<close>
  "matchAllFrom i [] = []"
| "matchAllFrom i (c # cs) =
     (case ansiAt (c # cs) of
        Some n \<Rightarrow> (i, take n (c # cs)) # matchAllFrom (i + n) (drop n (c # cs))
      | None \<Rightarrow> matchAllFrom (Suc i) cs)"
  by pat_completeness auto
termination
  by (relation "measure (\<lambda>(i, cs). length cs)") (auto dest: ansiAt_pos)

definition matchAll :: "jstr \<Rightarrow> (nat \<times> jstr) list" where
  \<comment> \<open>\<open>text.matchAll(ansiRegex)\<close>: pairs of \<open>match.index\<close> and \<open>match[0]\<close>\<close>
  "matchAll text = matchAllFrom 0 text"

fun copyChars :: "int \<Rightarrow> jstr list \<Rightarrow> jstr \<times> int \<Rightarrow> jstr \<times> int" where
  \<comment> \<open>\<open>for (const char of chars) { if (visibleCount >= targetWidth) break;
      result += char; visibleCount++ }\<close> on the pair of \<open>result\<close> and \<open>visibleCount\<close>\<close>
  "copyChars targetWidth [] (result, visibleCount) = (result, visibleCount)"
| "copyChars targetWidth (ch # chs) (result, visibleCount) =
     (if visibleCount \<ge> targetWidth then (result, visibleCount)
      else copyChars targetWidth chs (result @ ch, visibleCount + 1))"

fun walkMatches ::
  "jstr \<Rightarrow> int \<Rightarrow> (nat \<times> jstr) list \<Rightarrow> jstr \<times> int \<times> nat \<Rightarrow> jstr \<times> int \<times> nat" where
  \<comment> \<open>the loop over the matches, on \<open>result\<close>, \<open>visibleCount\<close> and \<open>lastIndex\<close>\<close>
  "walkMatches text targetWidth [] (result, visibleCount, lastIndex) =
     (result, visibleCount, lastIndex)"
| "walkMatches text targetWidth ((index, m) # ms) (result, visibleCount, lastIndex) =
     (let beforeAnsi = slice text (int lastIndex) (int index);
          (result1, visibleCount1) =
             copyChars targetWidth (codePoints beforeAnsi) (result, visibleCount)
      in if visibleCount1 \<ge> targetWidth then (result1, visibleCount1, lastIndex)
         else walkMatches text targetWidth ms (result1 @ m, visibleCount1, index + length m))"

definition truncateToWidth :: "jstr \<Rightarrow> int \<Rightarrow> jstr \<Rightarrow> jstr" where
  "truncateToWidth text maxWidth ellipsis =
     (let textWidth = int (visibleWidth text) in
      if textWidth \<le> maxWidth then text
      else
        let ellipsisWidth = int (length ellipsis);
            targetWidth = maxWidth - ellipsisWidth
        in if targetWidth \<le> 0 then slice ellipsis 0 maxWidth
           else
             let (result, visibleCount, lastIndex) =
                    walkMatches text targetWidth (matchAll text) ([], 0, 0);
                 (result', visibleCount') =
                    (if visibleCount < targetWidth
                     then copyChars targetWidth (codePoints (sliceFrom text (int lastIndex)))
                            (result, visibleCount)
                     else (result, visibleCount))
             in result' @ RESET @ ellipsis)"

definition truncateToWidth3 :: "jstr \<Rightarrow> int \<Rightarrow> jstr" where
  \<comment> \<open>the call with the default ellipsis \<open>"..."\<close>\<close>
  "truncateToWidth3 text maxWidth = truncateToWidth text maxWidth (str ''...'')"

subsection \<open>The walk of the specification\<close>

text \<open>
  The specification describes the truncation as one walk over the string, left to right:
  style-escape sequences are copied and use no budget, plain characters are copied and
  counted, and the walk ends as soon as the budget is used up. The function below is
  that walk, written from those words; the match loop of the source is compared with it
  further down. A plain character is one step of the source's \<open>for ... of\<close>, so a
  surrogate pair counts once.
\<close>

function takeVisible :: "nat \<Rightarrow> jstr \<Rightarrow> jstr" where
  "takeVisible 0 s = []"
| "takeVisible (Suc k) [] = []"
| "takeVisible (Suc k) (c # cs) =
     (case ansiAt (c # cs) of
        Some n \<Rightarrow> take n (c # cs) @ takeVisible (Suc k) (drop n (c # cs))
      | None \<Rightarrow>
          if isHighSurrogate c \<and> cs \<noteq> [] \<and> isLowSurrogate (hd cs)
          then c # hd cs # takeVisible k (tl cs)
          else c # takeVisible k cs)"
  by pat_completeness auto
termination
  by (relation "measure (\<lambda>(k, s). length s)") (auto dest: ansiAt_pos)

fun hasSurrogatePair :: "jstr \<Rightarrow> bool" where
  \<comment> \<open>a high surrogate directly followed by a low one, somewhere in the string\<close>
  "hasSurrogatePair (c # d # cs) =
     ((isHighSurrogate c \<and> isLowSurrogate d) \<or> hasSurrogatePair (d # cs))"
| "hasSurrogatePair cs = False"

fun firstMatch :: "jstr \<Rightarrow> (nat \<times> nat) option" where
  \<comment> \<open>offset and length of the leftmost match of the regular expression\<close>
  "firstMatch [] = None"
| "firstMatch (c # cs) =
     (case ansiAt (c # cs) of
        Some n \<Rightarrow> Some (0, n)
      | None \<Rightarrow> map_option (\<lambda>(j, n). (Suc j, n)) (firstMatch cs))"

definition walkText :: "jstr \<Rightarrow> int \<Rightarrow> (nat \<times> jstr) list \<Rightarrow> jstr \<times> int \<times> nat \<Rightarrow> jstr" where
  \<comment> \<open>the loop over the matches followed by the copy of the remaining characters: the
      value of \<open>result\<close> when the reset sequence is appended\<close>
  "walkText text t ms s =
     (case walkMatches text t ms s of
        (r1, v1, li1) \<Rightarrow>
          fst (if v1 < t then copyChars t (codePoints (sliceFrom text (int li1))) (r1, v1)
               else (r1, v1)))"

definition emoji :: jstr where
  \<comment> \<open>U+1F600, one code point in two code units\<close>
  "emoji = [0xD83D, 0xDE00]"

definition styledText :: jstr where
  \<comment> \<open>\<open>ab\<close>, bold on, \<open>cde\<close>, reset, \<open>fghij\<close>\<close>
  "styledText = str ''ab'' @ 0x1B # str ''[1mcde'' @ 0x1B # str ''[0mfghij''"

section \<open>The progress renderer: data\<close>

text \<open>
  What the class reads from outside itself is gathered in one record, passed to every
  operation: the theme's colouring function, the number formatting of the host (its
  numbers are floating point, kept abstract as the type \<open>'n\<close>; token counts are
  integers and are modelled as such), JSON printing, the clock, the terminal width and
  the two environment variables.
\<close>

datatype JsVal = JUndefined | JNull | JBool bool | JString jstr | JOther bool jstr
  \<comment> \<open>a tool argument of unknown type; \<open>JOther\<close> is any other value (a number, an array,
      an object), given by its truthiness and its conversion to a string\<close>

fun truthy :: "JsVal \<Rightarrow> bool" where
  "truthy JUndefined = False"
| "truthy JNull = False"
| "truthy (JBool b) = b"
| "truthy (JString s) = (s \<noteq> [])"
| "truthy (JOther t s) = t"

fun toString :: "JsVal \<Rightarrow> jstr" where
  \<comment> \<open>\<open>String(v)\<close>\<close>
  "toString JUndefined = str ''undefined''"
| "toString JNull = str ''null''"
| "toString (JBool b) = (if b then str ''true'' else str ''false'')"
| "toString (JString s) = s"
| "toString (JOther t s) = s"

definition orElse :: "JsVal \<Rightarrow> JsVal \<Rightarrow> JsVal" where
  \<comment> \<open>\<open>a || b\<close>\<close>
  "orElse a b = (if truthy a then a else b)"

definition getProp :: "(jstr \<rightharpoonup> JsVal) \<Rightarrow> string \<Rightarrow> JsVal" where
  \<comment> \<open>\<open>args.key\<close>: a missing property reads as \<open>undefined\<close>\<close>
  "getProp args key = (case args (str key) of None \<Rightarrow> JUndefined | Some v \<Rightarrow> v)"

record 'n Host =
  fg :: "jstr \<Rightarrow> jstr \<Rightarrow> jstr"
  num :: "int \<Rightarrow> 'n"
  toFixed :: "'n \<Rightarrow> nat \<Rightarrow> jstr"
  mathRound :: "'n \<Rightarrow> int"
  stringify :: "(jstr \<rightharpoonup> JsVal) \<Rightarrow> jstr"
  now :: int
  columns :: "int option"
  envHOME :: "jstr option"
  envUSERPROFILE :: "jstr option"

record World =
  stderr :: "jstr list"
  timers :: "nat list"
  timerSeq :: nat

definition stderrWrite :: "jstr \<Rightarrow> World \<Rightarrow> World" where
  \<comment> \<open>\<open>process.stderr.write(chunk)\<close>: the chunks written, oldest first\<close>
  "stderrWrite chunk w = w\<lparr>stderr := stderr w @ [chunk]\<rparr>"

definition setInterval :: "World \<Rightarrow> nat \<times> World" where
  \<comment> \<open>a new running interval timer and its handle\<close>
  "setInterval w = (timerSeq w, w\<lparr>timers := timers w @ [timerSeq w], timerSeq := Suc (timerSeq w)\<rparr>)"

definition clearInterval :: "nat \<Rightarrow> World \<Rightarrow> World" where
  "clearInterval handle w = w\<lparr>timers := removeAll handle (timers w)\<rparr>"

definition SPINNER_FRAMES :: "jstr list" where
  "SPINNER_FRAMES =
     [[0x280B], [0x2819], [0x2839], [0x2838], [0x283C], [0x2834], [0x2826], [0x2827],
      [0x2807], [0x280F]]"

definition spinnerGlyph :: "nat \<Rightarrow> jstr" where
  \<comment> \<open>\<open>SPINNER_FRAMES[i]\<close>. The index is below 10 in every reachable state; beyond the
      array the host reads \<open>undefined\<close>, written here as that word.\<close>
  "spinnerGlyph i = (if i < length SPINNER_FRAMES then SPINNER_FRAMES ! i else str ''undefined'')"

record 'n Usage =
  input :: int
  "output" :: int
  cacheRead :: int
  cacheWrite :: int
  cost :: 'n

text \<open>
  The record above is both \<open>CumulativeUsage\<close> and the \<open>usage\<close> of a message; in the
  latter \<open>cost\<close> is the field \<open>cost.total\<close>.
\<close>

record ContextUsage =
  tokens :: int
  window :: int

record Model =
  modelId :: jstr
  contextWindow :: int
  reasoning :: bool

datatype ActivityType = ToolActivity | ThinkingActivity | TextActivity | SystemActivity

datatype Content =
    ToolCall jstr "jstr \<rightharpoonup> JsVal"
  | ThinkingContent jstr
  | TextContent jstr

record 'n Message =
  msgRole :: jstr
  msgContent :: "Content list"
  msgUsage :: "'n Usage"

datatype 'n AgentSessionEvent =
    message_start "'n Message"
  | message_update "'n Message"
  | message_end "'n Message"
  | auto_compaction_start
  | auto_retry_start int int
  | other_event jstr

record 'n PrintModeProgress =
  spinnerFrame :: nat
  spinnerInterval :: "nat option"
  startTime :: int
  currentActivity :: jstr
  currentActivityType :: ActivityType
  currentToolName :: jstr
  usage :: "'n Usage"
  contextUsage :: ContextUsage
  hasReceivedStats :: bool
  model :: "Model option"
  thinkingLevel :: jstr
  isActive :: bool
  hasRenderedOnce :: bool

definition newPrintModeProgress :: "('n::zero) Host \<Rightarrow> 'n PrintModeProgress" where
  \<comment> \<open>the field initialisers and the constructor\<close>
  "newPrintModeProgress h =
     \<lparr>spinnerFrame = 0, spinnerInterval = None, startTime = now h,
      currentActivity = [], currentActivityType = SystemActivity, currentToolName = [],
      usage = \<lparr>input = 0, output = 0, cacheRead = 0, cacheWrite = 0, cost = 0\<rparr>,
      contextUsage = \<lparr>tokens = 0, window = 0\<rparr>, hasReceivedStats = False,
      model = None, thinkingLevel = str ''off'', isActive = False, hasRenderedOnce = False\<rparr>"

section \<open>The progress renderer: formatting\<close>

definition digit :: "nat \<Rightarrow> jchar" where
  "digit d = 0x30 + of_nat d"

fun digits :: "nat \<Rightarrow> jstr" where
  "digits n = (if n < 10 then [digit n] else digits (n div 10) @ [digit (n mod 10)])"

declare digits.simps [simp del]

definition showInt :: "int \<Rightarrow> jstr" where
  \<comment> \<open>an integer inside a template string, or \<open>count.toString()\<close>\<close>
  "showInt i = (if i < 0 then 0x2D # digits (nat (- i)) else digits (nat i))"

fun join :: "jstr \<Rightarrow> jstr list \<Rightarrow> jstr" where
  \<comment> \<open>\<open>parts.join(sep)\<close>\<close>
  "join sep [] = []"
| "join sep [x] = x"
| "join sep (x # y # ys) = x @ sep @ join sep (y # ys)"

definition startsWith :: "jstr \<Rightarrow> jstr \<Rightarrow> bool" where
  "startsWith s pre \<longleftrightarrow> take (length pre) s = pre"

definition shortenPath :: "'n Host \<Rightarrow> jstr \<Rightarrow> jstr" where
  "shortenPath h path =
     (let home = (case envHOME h of
                    Some v \<Rightarrow> if v \<noteq> [] then v
                              else (case envUSERPROFILE h of Some u \<Rightarrow> u | None \<Rightarrow> [])
                  | None \<Rightarrow> (case envUSERPROFILE h of Some u \<Rightarrow> u | None \<Rightarrow> []))
      in if home \<noteq> [] \<and> startsWith path home
         then 0x7E # sliceFrom path (int (length home))
         else path)"

definition isWhiteSpace :: "jchar \<Rightarrow> bool" where
  \<comment> \<open>the white space and line terminators that \<open>trim()\<close> removes\<close>
  "isWhiteSpace c \<longleftrightarrow>
     c \<in> {0x09, 0x0A, 0x0B, 0x0C, 0x0D, 0x20, 0xA0, 0x1680, 0x2028, 0x2029, 0x202F,
          0x205F, 0x3000, 0xFEFF} \<or> (0x2000 \<le> c \<and> c \<le> 0x200A)"

definition trim :: "jstr \<Rightarrow> jstr" where
  "trim s = rev (dropWhile isWhiteSpace (rev (dropWhile isWhiteSpace s)))"

fun collapseSpaces :: "jstr \<Rightarrow> jstr" where
  \<comment> \<open>\<open>.replace(/ +/g, " ")\<close>: every run of spaces becomes one space\<close>
  "collapseSpaces (c # d # cs) =
     (if c = 0x20 \<and> d = 0x20 then collapseSpaces (d # cs) else c # collapseSpaces (d # cs))"
| "collapseSpaces cs = cs"

definition normalizeText :: "jstr \<Rightarrow> jstr" where
  "normalizeText text =
     trim (collapseSpaces (map (\<lambda>c. if c = 0x0D \<or> c = 0x0A \<or> c = 0x09 then 0x20 else c) text))"

definition formatToolCall :: "'n Host \<Rightarrow> jstr \<Rightarrow> (jstr \<rightharpoonup> JsVal) \<Rightarrow> jstr" where
  "formatToolCall h name args =
     (if name = str ''read'' \<or> name = str ''write'' \<or> name = str ''edit'' then
        shortenPath h
          (toString (orElse (orElse (getProp args ''path'') (getProp args ''file_path''))
                            (JString [])))
      else if name = str ''bash'' then
        normalizeText (toString (orElse (getProp args ''command'') (JString [])))
      else if name = str ''grep'' then
        (let pattern = toString (orElse (getProp args ''pattern'') (JString []));
             path = shortenPath h (toString (orElse (getProp args ''path'') (JString (str ''.''))))
         in str ''/'' @ pattern @ str ''/ in '' @ path)
      else if name = str ''find'' then
        (let pattern = toString (orElse (getProp args ''pattern'') (JString []));
             path = shortenPath h (toString (orElse (getProp args ''path'') (JString (str ''.''))))
         in pattern @ str '' in '' @ path)
      else if name = str ''ls'' then
        shortenPath h (toString (orElse (getProp args ''path'') (JString (str ''.''))))
      else
        (let argsStr = stringify h args
         in if length argsStr > 40 then slice argsStr 0 37 @ str ''...'' else argsStr))"

definition formatTokens :: "('n::inverse) Host \<Rightarrow> int \<Rightarrow> jstr" where
  "formatTokens h count =
     (if count < 1000 then showInt count
      else if count < 10000 then toFixed h (num h count / num h 1000) 1 @ str ''k''
      else if count < 1000000 then showInt (mathRound h (num h count / num h 1000)) @ str ''k''
      else if count < 10000000 then toFixed h (num h count / num h 1000000) 1 @ str ''M''
      else showInt (mathRound h (num h count / num h 1000000)) @ str ''M'')"

definition formatElapsedTime :: "'n Host \<Rightarrow> 'n PrintModeProgress \<Rightarrow> jstr" where
  \<comment> \<open>\<open>Math.floor\<close> of an integer quotient is \<open>div\<close>; \<open>%\<close> is taken of an \<open>elapsed\<close> of
      at least 60 only, where it is \<open>mod\<close>\<close>
  "formatElapsedTime h p =
     (let elapsed = (now h - startTime p) div 1000
      in if elapsed < 60 then showInt elapsed @ str ''s''
         else let minutes = elapsed div 60; seconds = elapsed mod 60
              in showInt minutes @ str ''m '' @ showInt seconds @ str ''s'')"

section \<open>The progress renderer: the two lines and the frame\<close>

definition buildActivityLine :: "'n Host \<Rightarrow> 'n PrintModeProgress \<Rightarrow> jstr" where
  "buildActivityLine h p =
     (let spinner = fg h (str ''accent'') (spinnerGlyph (spinnerFrame p))
      in case currentActivityType p of
           ToolActivity \<Rightarrow>
             spinner @ str '' '' @
             fg h (str ''accent'') (str ''['' @ currentToolName p @ str '']'') @
             str '' '' @ currentActivity p
         | ThinkingActivity \<Rightarrow>
             if currentActivity p \<noteq> []
             then spinner @ str '' '' @ fg h (str ''accent'') (str ''[thinking]'') @
                  str '' '' @ currentActivity p
             else spinner @ str '' '' @ fg h (str ''accent'') (str ''[thinking]'')
         | TextActivity \<Rightarrow> spinner @ str '' '' @ currentActivity p
         | SystemActivity \<Rightarrow>
             if startsWith (currentActivity p) (str ''Retrying'')
             then fg h (str ''warning'') (spinnerGlyph (spinnerFrame p)) @ str '' '' @
                  fg h (str ''warning'') (currentActivity p)
             else spinner @ str '' '' @ currentActivity p)"

definition statsParts ::
  "('n::{times,inverse,ord}) Host \<Rightarrow> 'n PrintModeProgress \<Rightarrow> jstr list" where
  \<comment> \<open>the array \<open>parts\<close> that \<open>buildStatsLine\<close> fills, at its end\<close>
  "statsParts h p =
     (let placeholder = str ''---'' in
      (if hasReceivedStats p
       then [0x2191 # formatTokens h (input (usage p)),
             0x2193 # formatTokens h (output (usage p)),
             str ''R'' @ formatTokens h (cacheRead (usage p)),
             str ''W'' @ formatTokens h (cacheWrite (usage p)),
             str ''$'' @ toFixed h (cost (usage p)) 3]
       else [0x2191 # placeholder, 0x2193 # placeholder, str ''R'' @ placeholder,
             str ''W'' @ placeholder, str ''$'' @ placeholder]) @
      (if window (contextUsage p) > 0 then
         (if hasReceivedStats p then
            (let contextPercent =
                   (num h (tokens (contextUsage p)) / num h (window (contextUsage p))) * num h 100;
                 contextDisplay =
                   toFixed h contextPercent 1 @ str ''%/'' @
                   formatTokens h (window (contextUsage p))
             in if contextPercent > num h 90 then [fg h (str ''error'') contextDisplay]
                else if contextPercent > num h 70 then [fg h (str ''warning'') contextDisplay]
                else [contextDisplay])
          else [placeholder @ str ''/'' @ formatTokens h (window (contextUsage p))])
       else []) @
      (case model p of
         Some m \<Rightarrow>
           [modelId m @
            (if reasoning m \<and> thinkingLevel p \<noteq> str ''off''
             then str '':'' @ thinkingLevel p else [])]
       | None \<Rightarrow> []) @
      [formatElapsedTime h p])"

definition buildStatsLine ::
  "('n::{times,inverse,ord}) Host \<Rightarrow> 'n PrintModeProgress \<Rightarrow> jstr" where
  "buildStatsLine h p = fg h (str ''dim'') (join (str '' | '') (statsParts h p))"

definition CLEAR_LINE :: jstr where
  \<comment> \<open>\<open>\x1b[K\<close>\<close>
  "CLEAR_LINE = 0x1B # str ''[K''"

definition MOVE_UP_3 :: jstr where
  \<comment> \<open>\<open>\x1b[3A\r\<close>\<close>
  "MOVE_UP_3 = 0x1B # str ''[3A'' @ [0x0D]"

definition termWidth :: "'n Host \<Rightarrow> int" where
  \<comment> \<open>\<open>process.stderr.columns || 80\<close>\<close>
  "termWidth h = (case columns h of None \<Rightarrow> 80 | Some c \<Rightarrow> if c = 0 then 80 else c)"

definition frame :: "('n::{times,inverse,ord}) Host \<Rightarrow> 'n PrintModeProgress \<Rightarrow> jstr" where
  \<comment> \<open>the chunk that \<open>render\<close> writes\<close>
  "frame h p =
     (let activityLine = buildActivityLine h p;
          statsLine = buildStatsLine h p;
          displayActivity =
            (if int (visibleWidth activityLine) > termWidth h
             then truncateToWidth3 activityLine (termWidth h) else activityLine);
          displayStats =
            (if int (visibleWidth statsLine) > termWidth h
             then truncateToWidth3 statsLine (termWidth h) else statsLine);
          moveUp = (if hasRenderedOnce p then MOVE_UP_3 else [])
      in moveUp @ CLEAR_LINE @ [0x0A] @
         CLEAR_LINE @ displayActivity @ [0x0A] @
         CLEAR_LINE @ displayStats @ [0x0A] @
         CLEAR_LINE)"

definition render ::
  "('n::{times,inverse,ord}) Host \<Rightarrow> 'n PrintModeProgress \<times> World \<Rightarrow> 'n PrintModeProgress \<times> World" where
  "render h = (\<lambda>(p, w).
     if \<not> isActive p then (p, w)
     else (p\<lparr>hasRenderedOnce := True\<rparr>, stderrWrite (frame h p) w))"

definition clearLines :: "World \<Rightarrow> World" where
  "clearLines w =
     stderrWrite (MOVE_UP_3 @ CLEAR_LINE @ [0x0A] @ CLEAR_LINE @ [0x0A] @ CLEAR_LINE @ [0x0A] @
                  CLEAR_LINE @ MOVE_UP_3) w"

section \<open>The progress renderer: operations\<close>

fun isToolCall :: "Content \<Rightarrow> bool" where
  "isToolCall (ToolCall name args) = True"
| "isToolCall c = False"

fun isThinking :: "Content \<Rightarrow> bool" where
  "isThinking (ThinkingContent t) = True"
| "isThinking c = False"

fun isText :: "Content \<Rightarrow> bool" where
  "isText (TextContent t) = True"
| "isText c = False"

definition updateFromAssistantMessage ::
  "'n Host \<Rightarrow> 'n Message \<Rightarrow> 'n PrintModeProgress \<Rightarrow> 'n PrintModeProgress" where
  "updateFromAssistantMessage h msg p =
     (let toolCalls = filter isToolCall (msgContent msg) in
      if length toolCalls > 0 then
        (case last toolCalls of
           ToolCall name args \<Rightarrow>
             p\<lparr>currentToolName := name,
               currentActivity := formatToolCall h name args,
               currentActivityType := ToolActivity\<rparr>
         | _ \<Rightarrow> p)
      else
        let thinkingBlocks = filter isThinking (msgContent msg) in
        if length thinkingBlocks > 0 then
          (case last thinkingBlocks of
             ThinkingContent t \<Rightarrow>
               p\<lparr>currentActivity := (if trim t \<noteq> [] then normalizeText t else []),
                 currentActivityType := ThinkingActivity\<rparr>
           | _ \<Rightarrow> p)
        else
          let textBlocks = filter isText (msgContent msg) in
          if length textBlocks > 0 then
            (case last textBlocks of
               TextContent t \<Rightarrow>
                 if t \<noteq> []
                 then p\<lparr>currentActivity := normalizeText t,
                        currentActivityType := TextActivity\<rparr>
                 else p
             | _ \<Rightarrow> p)
          else p)"

definition start ::
  "('n::{times,inverse,ord}) Host \<Rightarrow> Model option \<Rightarrow> jstr \<Rightarrow>
   'n PrintModeProgress \<times> World \<Rightarrow> 'n PrintModeProgress \<times> World" where
  "start h mdl level = (\<lambda>(p, w).
     let p1 = p\<lparr>model := mdl, thinkingLevel := level, startTime := now h,
                isActive := True, hasReceivedStats := False,
                currentActivity := str ''Starting...'',
                currentActivityType := SystemActivity,
                contextUsage :=
                  \<lparr>tokens = 0,
                   window = (case mdl of None \<Rightarrow> 0 | Some m \<Rightarrow> contextWindow m)\<rparr>,
                hasRenderedOnce := False\<rparr>;
         (handle, w1) = setInterval w
     in render h (p1\<lparr>spinnerInterval := Some handle\<rparr>, w1))"

definition tick ::
  "('n::{times,inverse,ord}) Host \<Rightarrow> 'n PrintModeProgress \<times> World \<Rightarrow> 'n PrintModeProgress \<times> World" where
  \<comment> \<open>the callback given to \<open>setInterval\<close>\<close>
  "tick h = (\<lambda>(p, w).
     render h (p\<lparr>spinnerFrame := (spinnerFrame p + 1) mod length SPINNER_FRAMES\<rparr>, w))"

definition stop :: "'n PrintModeProgress \<times> World \<Rightarrow> 'n PrintModeProgress \<times> World" where
  "stop = (\<lambda>(p, w).
     let p1 = p\<lparr>isActive := False\<rparr>
     in case spinnerInterval p1 of
          Some handle \<Rightarrow> (p1\<lparr>spinnerInterval := None\<rparr>, clearLines (clearInterval handle w))
        | None \<Rightarrow> (p1, clearLines w))"

definition applyEvent ::
  "('n::plus) Host \<Rightarrow> 'n AgentSessionEvent \<Rightarrow> 'n PrintModeProgress \<Rightarrow> 'n PrintModeProgress" where
  \<comment> \<open>the \<open>switch\<close> of \<open>handleEvent\<close>\<close>
  "applyEvent h event p =
     (case event of
        message_start msg \<Rightarrow>
          if msgRole msg = str ''assistant''
          then p\<lparr>currentActivity := str ''Working...'', currentActivityType := SystemActivity\<rparr>
          else p
      | message_update msg \<Rightarrow>
          if msgRole msg = str ''assistant'' then updateFromAssistantMessage h msg p else p
      | message_end msg \<Rightarrow>
          if msgRole msg = str ''assistant'' then
            p\<lparr>usage :=
                 \<lparr>input = input (usage p) + input (msgUsage msg),
                  output = output (usage p) + output (msgUsage msg),
                  cacheRead = cacheRead (usage p) + cacheRead (msgUsage msg),
                  cacheWrite = cacheWrite (usage p) + cacheWrite (msgUsage msg),
                  cost = cost (usage p) + cost (msgUsage msg)\<rparr>,
               contextUsage :=
                 (contextUsage p)\<lparr>tokens :=
                    input (msgUsage msg) + output (msgUsage msg) + cacheRead (msgUsage msg) +
                    cacheWrite (msgUsage msg)\<rparr>,
               hasReceivedStats := True\<rparr>
          else p
      | auto_compaction_start \<Rightarrow>
          p\<lparr>currentActivity := str ''Compacting context...'',
            currentActivityType := SystemActivity\<rparr>
      | auto_retry_start attempt maxAttempts \<Rightarrow>
          p\<lparr>currentActivity :=
               str ''Retrying ('' @ showInt attempt @ str ''/'' @ showInt maxAttempts @ str '')...'',
            currentActivityType := SystemActivity\<rparr>
      | other_event kind \<Rightarrow> p)"

definition handleEvent ::
  "('n::{plus,times,inverse,ord}) Host \<Rightarrow> 'n AgentSessionEvent \<Rightarrow>
   'n PrintModeProgress \<times> World \<Rightarrow> 'n PrintModeProgress \<times> World" where
  "handleEvent h event = (\<lambda>(p, w).
     if \<not> isActive p then (p, w) else render h (applyEvent h event p, w))"

section \<open>Runs of the display\<close>

text \<open>
  The host calls into the object from two sources: the driver hands over session events,
  and each running interval timer fires its callback. A run is a list of such calls, each
  with the host as it is at that moment.
\<close>

datatype 'n Callback = Event "'n Host" "'n AgentSessionEvent" | Tick "'n Host"

fun deliver ::
  "('n::{plus,times,inverse,ord}) Callback \<Rightarrow> 'n PrintModeProgress \<times> World \<Rightarrow>
   'n PrintModeProgress \<times> World" where
  "deliver (Event h e) = handleEvent h e"
| "deliver (Tick h) = tick h"

definition run ::
  "('n::{plus,times,inverse,ord}) Callback list \<Rightarrow> 'n PrintModeProgress \<times> World \<Rightarrow>
   'n PrintModeProgress \<times> World" where
  "run cs s = fold deliver cs s"

fun completedUsage :: "'n Callback \<Rightarrow> 'n Usage list" where
  \<comment> \<open>the usage of a completed assistant message, if the call delivers one\<close>
  "completedUsage (Event h (message_end msg)) =
     (if msgRole msg = str ''assistant'' then [msgUsage msg] else [])"
| "completedUsage c = []"

definition completed :: "'n Callback list \<Rightarrow> 'n Usage list" where
  "completed cs = concat (map completedUsage cs)"

definition tokenTotal :: "'n Usage \<Rightarrow> int" where
  \<comment> \<open>the sum of the four token fields of one message\<close>
  "tokenTotal u = input u + output u + cacheRead u + cacheWrite u"

subsection \<open>A host for the examples\<close>

text \<open>
  Numbers are exact rationals, \<open>toFixed\<close> rounds half up, every colour wraps the text in
  one pair of style sequences, the terminal has 80 columns.
\<close>

definition padLeft :: "nat \<Rightarrow> jstr \<Rightarrow> jstr" where
  "padLeft d s = replicate (d - length s) 0x30 @ s"

definition toFixedRat :: "rat \<Rightarrow> nat \<Rightarrow> jstr" where
  "toFixedRat x d =
     (let n = nat \<lfloor>x * 10 ^ d + 1 / 2\<rfloor>
      in digits (n div 10 ^ d) @
         (if d = 0 then [] else str ''.'' @ padLeft d (digits (n mod 10 ^ d))))"

definition exampleHost :: "rat Host" where
  "exampleHost =
     \<lparr>fg = (\<lambda>color text. 0x1B # str ''[36m'' @ text @ 0x1B # str ''[39m''),
      num = of_int,
      toFixed = toFixedRat,
      mathRound = (\<lambda>x. \<lfloor>x + 1 / 2\<rfloor>),
      stringify = (\<lambda>args. str ''{}''),
      now = 1704067200000,
      columns = Some 80,
      envHOME = Some (str ''/home/u''),
      envUSERPROFILE = None\<rparr>"

definition exampleModel :: Model where
  "exampleModel = \<lparr>modelId = str ''test-model'', contextWindow = 200000, reasoning = False\<rparr>"

definition exampleWorld :: World where
  "exampleWorld = \<lparr>stderr = [], timers = [], timerSeq = 0\<rparr>"

definition exampleMessage :: "Content list \<Rightarrow> rat Usage \<Rightarrow> rat Message" where
  "exampleMessage c u = \<lparr>msgRole = str ''assistant'', msgContent = c, msgUsage = u\<rparr>"

definition exampleSession :: "rat PrintModeProgress \<times> World" where
  \<comment> \<open>a new object, started\<close>
  "exampleSession =
     start exampleHost (Some exampleModel) (str ''off'')
       (newPrintModeProgress exampleHost, exampleWorld)"

definition usageA :: "rat Usage" where
  "usageA = \<lparr>input = 100, output = 50, cacheRead = 0, cacheWrite = 0, cost = 1 / 100\<rparr>"

definition usageB :: "rat Usage" where
  "usageB = \<lparr>input = 200, output = 100, cacheRead = 0, cacheWrite = 0, cost = 2 / 100\<rparr>"

definition exampleCalls :: "rat Callback list" where
  "exampleCalls =
     [Event exampleHost (message_end (exampleMessage [] usageA)),
      Event exampleHost (message_end (exampleMessage [] usageB))]"

subsection \<open>Vocabulary of the statements\<close>

definition unrecognised :: "'n AgentSessionEvent \<Rightarrow> bool" where
  \<comment> \<open>an event that no case of the \<open>switch\<close> acts on: a kind it does not list, or a
      message whose role is not \<open>assistant\<close>\<close>
  "unrecognised e =
     (case e of
        message_start msg \<Rightarrow> msgRole msg \<noteq> str ''assistant''
      | message_update msg \<Rightarrow> msgRole msg \<noteq> str ''assistant''
      | message_end msg \<Rightarrow> msgRole msg \<noteq> str ''assistant''
      | other_event kind \<Rightarrow> True
      | _ \<Rightarrow> False)"

fun hostOf :: "'n Callback \<Rightarrow> 'n Host" where
  "hostOf (Event h e) = h"
| "hostOf (Tick h) = h"

fun stepState :: "('n::plus) Callback \<Rightarrow> 'n PrintModeProgress \<Rightarrow> 'n PrintModeProgress" where
  \<comment> \<open>what a call does to the object before it renders\<close>
  "stepState (Event h e) p = applyEvent h e p"
| "stepState (Tick h) p = p\<lparr>spinnerFrame := (spinnerFrame p + 1) mod length SPINNER_FRAMES\<rparr>"

definition displayed :: "'n Host \<Rightarrow> jstr \<Rightarrow> jstr" where
  \<comment> \<open>a line as \<open>render\<close> shows it: cut to the terminal width when it is wider\<close>
  "displayed h line =
     (if int (visibleWidth line) > termWidth h then truncateToWidth3 line (termWidth h) else line)"

definition fourLines :: "jstr \<Rightarrow> jstr \<Rightarrow> jstr" where
  \<comment> \<open>blank, activity, stats, blank: each line cleared before it is written\<close>
  "fourLines a s =
     CLEAR_LINE @ [0x0A] @ CLEAR_LINE @ a @ [0x0A] @ CLEAR_LINE @ s @ [0x0A] @ CLEAR_LINE"

definition session ::
  "('n::{zero,plus,times,inverse,ord}) Host \<Rightarrow> World \<Rightarrow> 'n Host \<Rightarrow> Model option \<Rightarrow> jstr \<Rightarrow>
   'n Callback list \<Rightarrow> 'n PrintModeProgress \<times> World" where
  \<comment> \<open>a new object, started, then the calls of a run\<close>
  "session h0 w h mdl lvl cs = run cs (start h mdl lvl (newPrintModeProgress h0, w))"

section \<open>Properties of stripping\<close>

lemma ansiAt_head: "ansiAt xs = Some n \<Longrightarrow> \<exists>ys. xs = 0x1B # 0x5B # ys"
  by (induction xs rule: ansiAt.induct) (auto split: if_splits)

lemma stripAnsi_no_escape: "0x1B \<notin> set t \<Longrightarrow> stripAnsi t = t"
proof (induction t)
  case Nil
  show ?case by simp
next
  case (Cons c cs)
  have "ansiAt (c # cs) = None"
  proof (cases "ansiAt (c # cs)")
    case None
    then show ?thesis .
  next
    case (Some n)
    from ansiAt_head [OF this] Cons.prems show ?thesis by auto
  qed
  with Cons show ?case by simp
qed

lemma length_stripAnsi: "length (stripAnsi t) \<le> length t"
proof (induction t rule: stripAnsi.induct)
  case 1
  show ?case by simp
next
  case (2 c cs)
  show ?case
  proof (cases "ansiAt (c # cs)")
    case None
    with 2 show ?thesis by simp
  next
    case (Some n)
    with 2 have "length (stripAnsi (drop n (c # cs))) \<le> length (drop n (c # cs))"
      by simp
    also have "\<dots> \<le> length (c # cs)" by simp
    finally show ?thesis using Some by simp
  qed
qed

lemma firstMatch_None_iff: "firstMatch t = None \<longleftrightarrow> (\<forall>k. ansiAt (drop k t) = None)"
proof (induction t)
  case Nil
  show ?case by simp
next
  case (Cons c cs)
  show ?case
  proof
    assume a: "firstMatch (c # cs) = None"
    then have h: "ansiAt (c # cs) = None" and "firstMatch cs = None"
      by (auto split: option.splits)
    then have r: "\<forall>k. ansiAt (drop k cs) = None" using Cons.IH by simp
    show "\<forall>k. ansiAt (drop k (c # cs)) = None"
    proof
      fix k
      show "ansiAt (drop k (c # cs)) = None" using h r by (cases k) simp_all
    qed
  next
    assume a: "\<forall>k. ansiAt (drop k (c # cs)) = None"
    have h: "ansiAt (c # cs) = None" using a [rule_format, of 0] by simp
    have "\<forall>k. ansiAt (drop k cs) = None"
    proof
      fix k
      show "ansiAt (drop k cs) = None" using a [rule_format, of "Suc k"] by simp
    qed
    then have "firstMatch cs = None" using Cons.IH by simp
    then show "firstMatch (c # cs) = None" using h by simp
  qed
qed

lemma stripAnsi_no_match: "firstMatch t = None \<Longrightarrow> stripAnsi t = t"
proof (induction t)
  case Nil
  show ?case by simp
next
  case (Cons c cs)
  then have "ansiAt (c # cs) = None" and "firstMatch cs = None"
    by (auto split: option.splits)
  then show ?case using Cons.IH by simp
qed

lemma stripAnsi_shorter: "firstMatch t \<noteq> None \<Longrightarrow> length (stripAnsi t) < length t"
proof (induction t)
  case Nil
  then show ?case by simp
next
  case (Cons c cs)
  show ?case
  proof (cases "ansiAt (c # cs)")
    case (Some n)
    have "length (stripAnsi (drop n (c # cs))) \<le> length (drop n (c # cs))"
      by (rule length_stripAnsi)
    also have "\<dots> < length (c # cs)" using ansiAt_pos [OF Some] by simp
    finally show ?thesis using Some by simp
  next
    case None
    then have "firstMatch cs \<noteq> None" using Cons.prems by auto
    then have "length (stripAnsi cs) < length cs" by (rule Cons.IH)
    then show ?thesis using None by simp
  qed
qed

text \<open>
  Claim C3, as amended. Stripping is a single pass, so the pieces left around a removed
  sequence can join into a new sequence. For every string, stripping the stripped string
  never widens it, and the two widths are equal exactly when the stripped string holds no
  recognised sequence at any position. A partial or unterminated sequence, or an escape
  sequence of another kind, stays in the stripped string as ordinary characters and does
  not change the width; only a sequence that the first pass has put together does.
\<close>

theorem C3_strip_width_amended:
  "visibleWidth (stripAnsi s) \<le> visibleWidth s \<and>
   ((\<forall>k. ansiAt (drop k (stripAnsi s)) = None) \<longrightarrow>
      visibleWidth (stripAnsi s) = visibleWidth s) \<and>
   (\<not> (\<forall>k. ansiAt (drop k (stripAnsi s)) = None) \<longrightarrow>
      visibleWidth (stripAnsi s) < visibleWidth s) \<and>
   ((\<forall>k. ansiAt (drop k (stripAnsi s)) = None) \<longleftrightarrow> firstMatch (stripAnsi s) = None)"
proof -
  have "visibleWidth (stripAnsi s) \<le> visibleWidth s"
    using length_stripAnsi [of "stripAnsi s"] by (simp add: visibleWidth_def)
  moreover have "visibleWidth (stripAnsi s) = visibleWidth s"
    if "firstMatch (stripAnsi s) = None"
    using stripAnsi_no_match [OF that] by (simp add: visibleWidth_def)
  moreover have "visibleWidth (stripAnsi s) < visibleWidth s"
    if "firstMatch (stripAnsi s) \<noteq> None"
    using stripAnsi_shorter [OF that] by (simp add: visibleWidth_def)
  ultimately show ?thesis
    unfolding firstMatch_None_iff [symmetric] by blast
qed

theorem C3_strip_width_witness:
  "firstMatch (stripAnsi (0x1B # str ''[31a'')) = None \<and>
   0x1B \<in> set (stripAnsi (0x1B # str ''[31a'')) \<and>
   visibleWidth (stripAnsi (0x1B # str ''[31a'')) = visibleWidth (0x1B # str ''[31a'') \<and>
   firstMatch (stripAnsi (str ''ab'' @ 0x1B # str ''[K'')) = None \<and>
   visibleWidth (stripAnsi (str ''ab'' @ 0x1B # str ''[K'')) =
     visibleWidth (str ''ab'' @ 0x1B # str ''[K'') \<and>
   firstMatch (stripAnsi (0x1B # str ''[1;31mab'' @ 0x1B # str ''[0mc'')) = None \<and>
   visibleWidth (stripAnsi (0x1B # str ''[1;31mab'' @ 0x1B # str ''[0mc'')) =
     visibleWidth (0x1B # str ''[1;31mab'' @ 0x1B # str ''[0mc'') \<and>
   firstMatch (stripAnsi (0x1B # str ''['' @ 0x1B # str ''[0m0m'')) \<noteq> None \<and>
   visibleWidth (stripAnsi (0x1B # str ''['' @ 0x1B # str ''[0m0m'')) <
     visibleWidth (0x1B # str ''['' @ 0x1B # str ''[0m0m'')"
proof -
  have a: "firstMatch (stripAnsi (0x1B # str ''[31a'')) = None"
    and a': "0x1B \<in> set (stripAnsi (0x1B # str ''[31a''))"
    and b: "firstMatch (stripAnsi (str ''ab'' @ 0x1B # str ''[K'')) = None"
    and c: "firstMatch (stripAnsi (0x1B # str ''[1;31mab'' @ 0x1B # str ''[0mc'')) = None"
    and d: "firstMatch (stripAnsi (0x1B # str ''['' @ 0x1B # str ''[0m0m'')) \<noteq> None"
    by (simp_all add: str_def isParam_def)
  show ?thesis
    using C3_strip_width_amended [of "0x1B # str ''[31a''"]
      C3_strip_width_amended [of "str ''ab'' @ 0x1B # str ''[K''"]
      C3_strip_width_amended [of "0x1B # str ''[1;31mab'' @ 0x1B # str ''[0mc''"]
      C3_strip_width_amended [of "0x1B # str ''['' @ 0x1B # str ''[0m0m''"]
      a a' b c d
    by blast
qed

text \<open>
  Claim C3 as stated fails: in ESC [ ESC [ 0 m 0 m the inner sequence is removed and the
  four code units left form a sequence of their own, of width 4 before the second
  stripping and 0 after it.
\<close>

theorem C3_strip_width_counterexample:
  "visibleWidth (stripAnsi [0x1B, 0x5B, 0x1B, 0x5B, 0x30, 0x6D, 0x30, 0x6D]) = 0 \<and>
   visibleWidth [0x1B, 0x5B, 0x1B, 0x5B, 0x30, 0x6D, 0x30, 0x6D] = 4"
  by (simp add: isParam_def visibleWidth_def)

section \<open>Properties of truncation\<close>

lemma takeVisible_Nil [simp]: "takeVisible k [] = []"
  by (cases k) simp_all

lemma ansiAt_le: "ansiAt xs = Some n \<Longrightarrow> n \<le> length xs"
proof (induction xs rule: ansiAt.induct)
  case (1 e b cs)
  have "length (takeWhile isParam cs) + length (dropWhile isParam cs) = length cs"
    by (metis length_append takeWhile_dropWhile_id)
  with 1 show ?case by (auto split: if_splits list.splits)
qed simp_all

lemma ansiAt_iff:
  "ansiAt xs = Some n \<longleftrightarrow>
   (\<exists>ps rest. xs = 0x1B # 0x5B # ps @ 0x6D # rest \<and> (\<forall>p \<in> set ps. isParam p) \<and> n = length ps + 3)"
proof
  assume a: "ansiAt xs = Some n"
  then obtain cs where xs: "xs = 0x1B # 0x5B # cs" using ansiAt_head by blast
  from a xs obtain rest where d: "dropWhile isParam cs = 0x6D # rest"
    and n: "n = length (takeWhile isParam cs) + 3"
    by (auto split: list.splits if_splits)
  have "cs = takeWhile isParam cs @ 0x6D # rest"
    using d by (metis takeWhile_dropWhile_id)
  moreover have "\<forall>p \<in> set (takeWhile isParam cs). isParam p"
    by (auto dest: set_takeWhileD)
  ultimately show "\<exists>ps rest. xs = 0x1B # 0x5B # ps @ 0x6D # rest \<and> (\<forall>p \<in> set ps. isParam p) \<and> n = length ps + 3"
    using xs n by blast
next
  assume "\<exists>ps rest. xs = 0x1B # 0x5B # ps @ 0x6D # rest \<and> (\<forall>p \<in> set ps. isParam p) \<and> n = length ps + 3"
  then obtain ps rest where xs: "xs = 0x1B # 0x5B # ps @ 0x6D # rest"
    and ps: "\<forall>p \<in> set ps. isParam p" and n: "n = length ps + 3" by blast
  have m: "\<not> isParam 0x6D" by (simp add: isParam_def)
  have "takeWhile isParam (ps @ 0x6D # rest) = ps" "dropWhile isParam (ps @ 0x6D # rest) = 0x6D # rest"
    using ps m by (simp_all add: takeWhile_append2 dropWhile_append2)
  then show "ansiAt xs = Some n" using xs n by simp
qed

lemma ansiAt_extend:
  assumes "ansiAt xs = Some n"
  shows "ansiAt (take n xs @ zs) = Some n"
proof -
  from assms obtain ps rest where xs: "xs = 0x1B # 0x5B # ps @ 0x6D # rest"
    and ps: "\<forall>p \<in> set ps. isParam p" and n: "n = length ps + 3"
    unfolding ansiAt_iff by blast
  have "take n xs @ zs = 0x1B # 0x5B # ps @ 0x6D # zs"
    using xs n by (simp add: numeral_3_eq_3)
  then show ?thesis unfolding ansiAt_iff using ps n by blast
qed

lemma firstMatch_Some:
  "firstMatch xs = Some (j, n) \<Longrightarrow>
   ansiAt (drop j xs) = Some n \<and> j + n \<le> length xs \<and> 0 < n \<and>
   (\<forall>k < j. ansiAt (drop k xs) = None)"
proof (induction xs arbitrary: j)
  case Nil
  then show ?case by simp
next
  case (Cons c cs)
  show ?case
  proof (cases "ansiAt (c # cs)")
    case (Some m)
    with Cons.prems have "j = 0" "n = m" by simp_all
    then show ?thesis using Some ansiAt_le [OF Some] ansiAt_pos [OF Some] by simp
  next
    case None
    with Cons.prems obtain j' where j: "j = Suc j'" and f: "firstMatch cs = Some (j', n)"
      by auto
    from Cons.IH [OF f] have ih: "ansiAt (drop j' cs) = Some n" "j' + n \<le> length cs" "0 < n"
      "\<forall>k < j'. ansiAt (drop k cs) = None" by simp_all
    have "\<forall>k < j. ansiAt (drop k (c # cs)) = None"
    proof (intro allI impI)
      fix k assume "k < j"
      then show "ansiAt (drop k (c # cs)) = None"
        using None ih(4) j by (cases k) simp_all
    qed
    then show ?thesis using ih j by simp
  qed
qed

lemma firstMatch_None:
  "firstMatch xs = None \<Longrightarrow> ansiAt (drop k xs) = None"
proof (induction xs arbitrary: k)
  case Nil
  then show ?case by simp
next
  case (Cons c cs)
  then show ?case by (cases k) (auto split: option.splits)
qed

lemma matchAllFrom_first:
  "matchAllFrom i xs =
     (case firstMatch xs of
        None \<Rightarrow> []
      | Some (j, n) \<Rightarrow> (i + j, take n (drop j xs)) # matchAllFrom (i + j + n) (drop (j + n) xs))"
proof (induction xs arbitrary: i)
  case Nil
  show ?case by simp
next
  case (Cons c cs)
  show ?case
  proof (cases "ansiAt (c # cs)")
    case (Some m)
    then show ?thesis by simp
  next
    case None
    then show ?thesis using Cons.IH [of "Suc i"]
      by (simp split: option.splits)
  qed
qed

lemma slice_nat:
  "a \<le> b \<Longrightarrow> b \<le> length xs \<Longrightarrow> slice xs (int a) (int b) = take (b - a) (drop a xs)"
  by (simp add: slice_def Let_def min_def nat_diff_distrib')

lemma sliceFrom_nat: "a \<le> length xs \<Longrightarrow> sliceFrom xs (int a) = drop a xs"
  by (simp add: sliceFrom_def slice_def Let_def min_def nat_diff_distrib')

lemma copy_plain:
  assumes "\<forall>k < length plain. ansiAt (drop k (plain @ ys)) = None"
    and "ys \<noteq> [] \<longrightarrow> \<not> isLowSurrogate (hd ys)"
    and "v \<le> t"
  shows "\<exists>r' v'. copyChars t (codePoints plain) (r, v) = (r', v') \<and> v \<le> v' \<and> v' \<le> t \<and>
           r @ takeVisible (nat (t - v)) (plain @ ys) = r' @ takeVisible (nat (t - v')) ys"
  using assms
proof (induction plain arbitrary: r v rule: codePoints.induct)
  case 1
  then show ?case by simp
next
  case (2 c)
  show ?case
  proof (cases "v \<ge> t")
    case True
    with 2 have "v = t" by simp
    then show ?thesis by simp
  next
    case False
    then have "nat (t - v) = Suc (nat (t - (v + 1)))" by arith
    then obtain k where k: "nat (t - v) = Suc k" "nat (t - (v + 1)) = k" by blast
    have n: "ansiAt (c # ys) = None" using 2(1) by auto
    show ?thesis
      using False k n 2(2) by (cases ys) auto
  qed
next
  case (3 c d cs)
  show ?case
  proof (cases "v \<ge> t")
    case True
    with 3 have "v = t" by simp
    then show ?thesis by simp
  next
    case False
    then have "nat (t - v) = Suc (nat (t - (v + 1)))" by arith
    then obtain k where k: "nat (t - v) = Suc k" "nat (t - (v + 1)) = k" by blast
    have n: "ansiAt (c # d # cs @ ys) = None" using "3.prems"(1) by auto
    have v1: "v + 1 \<le> t" using False by simp
    show ?thesis
    proof (cases "isHighSurrogate c \<and> isLowSurrogate d")
      case True
      have h: "\<forall>k < length cs. ansiAt (drop k (cs @ ys)) = None"
      proof (intro allI impI)
        fix j assume "j < length cs"
        then have "ansiAt (drop (Suc (Suc j)) ((c # d # cs) @ ys)) = None"
          using "3.prems"(1) by (metis Suc_less_eq length_Cons)
        then show "ansiAt (drop j (cs @ ys)) = None" by simp
      qed
      from "3.IH"(1) [OF True h "3.prems"(2) v1, of "r @ [c, d]"]
      obtain r' v' where ih: "copyChars t (codePoints cs) (r @ [c, d], v + 1) = (r', v')"
        "v + 1 \<le> v'" "v' \<le> t"
        "(r @ [c, d]) @ takeVisible (nat (t - (v + 1))) (cs @ ys) = r' @ takeVisible (nat (t - v')) ys"
        by blast
      have "v \<le> v'" using ih(2) by simp
      then show ?thesis using False True k n ih by simp
    next
      case nopair: False
      have h: "\<forall>k < length (d # cs). ansiAt (drop k ((d # cs) @ ys)) = None"
      proof (intro allI impI)
        fix j assume "j < length (d # cs)"
        then have "ansiAt (drop (Suc j) ((c # d # cs) @ ys)) = None"
          using "3.prems"(1) by (metis Suc_less_eq length_Cons)
        then show "ansiAt (drop j ((d # cs) @ ys)) = None" by simp
      qed
      from "3.IH"(2) [OF nopair h "3.prems"(2) v1, of "r @ [c]"]
      obtain r' v' where ih: "copyChars t (codePoints (d # cs)) (r @ [c], v + 1) = (r', v')"
        "v + 1 \<le> v'" "v' \<le> t"
        "(r @ [c]) @ takeVisible (nat (t - (v + 1))) ((d # cs) @ ys) = r' @ takeVisible (nat (t - v')) ys"
        by blast
      have "v \<le> v'" using ih(2) by simp
      moreover have np: "(isHighSurrogate c \<and> isLowSurrogate d) = False" using nopair by simp
      ultimately show ?thesis using False k n ih by (simp add: np)
    qed
  qed
qed

lemma takeVisible_match:
  "ansiAt ys = Some n \<Longrightarrow> 0 < k \<Longrightarrow> takeVisible k ys = take n ys @ takeVisible k (drop n ys)"
proof -
  assume a: "ansiAt ys = Some n" and k: "0 < k"
  from a obtain c cs where ys: "ys = c # cs" using ansiAt_head by blast
  from k obtain k' where k': "k = Suc k'" by (cases k) simp_all
  show ?thesis using a unfolding ys k' by simp
qed

lemma escape_not_low: "\<not> isLowSurrogate 0x1B"
  by (simp add: isLowSurrogate_def)

lemma walkMatches_step:
  "copyChars t (codePoints (slice text (int li) (int idx))) (r, v) = (r1, v1) \<Longrightarrow>
   walkMatches text t ((idx, m) # ms) (r, v, li) =
     (if v1 \<ge> t then (r1, v1, li) else walkMatches text t ms (r1 @ m, v1, idx + length m))"
  by simp

lemma walk_refines:
  assumes "li \<le> length text" and "v < t"
  shows "walkText text t (matchAllFrom li (drop li text)) (r, v, li) =
           r @ takeVisible (nat (t - v)) (drop li text)"
  using assms
proof (induction "length text - li" arbitrary: li r v rule: less_induct)
  case less
  let ?xs = "drop li text"
  show ?case
  proof (cases "firstMatch ?xs")
    case None
    then have m: "matchAllFrom li ?xs = []" by (simp add: matchAllFrom_first)
    have p: "\<forall>k < length ?xs. ansiAt (drop k (?xs @ [])) = None"
      using firstMatch_None [OF None] by simp
    have "v \<le> t" using less.prems by simp
    from copy_plain [OF p _ this, of r]
    obtain r' v' where c: "copyChars t (codePoints ?xs) (r, v) = (r', v')"
      "r @ takeVisible (nat (t - v)) (?xs @ []) = r' @ takeVisible (nat (t - v')) []"
      by auto
    show ?thesis
      using m c less.prems by (simp add: walkText_def sliceFrom_nat)
  next
    case (Some jn)
    obtain j n where jn: "jn = (j, n)" by (cases jn)
    from firstMatch_Some [OF Some [unfolded jn]]
    have f: "ansiAt (drop j ?xs) = Some n" "j + n \<le> length ?xs" "0 < n"
      "\<forall>k < j. ansiAt (drop k ?xs) = None" by simp_all
    define plain where "plain = take j ?xs"
    define m where "m = take n (drop j ?xs)"
    define rest where "rest = drop (j + n) ?xs"
    have mrest: "drop j ?xs = m @ rest"
      unfolding m_def rest_def by (metis add.commute append_take_drop_id drop_drop)
    have xs: "?xs = plain @ m @ rest"
      unfolding plain_def mrest [symmetric] by (simp only: append_take_drop_id)
    have lens: "length plain = j" "length m = n"
      using f(2) by (simp_all add: plain_def m_def)
    have bound: "li + j + n \<le> length text" using f(2) less.prems(1) by simp
    have sl: "slice text (int li) (int (li + j)) = plain"
      using slice_nat [of li "li + j" "text"] bound by (simp add: plain_def)
    have p: "\<forall>k < length plain. ansiAt (drop k (plain @ m @ rest)) = None"
      using f(4) lens(1) xs by metis
    obtain zs where "m @ rest = 0x1B # 0x5B # zs"
      using ansiAt_head [OF f(1)] mrest by metis
    then have q: "m @ rest \<noteq> [] \<longrightarrow> \<not> isLowSurrogate (hd (m @ rest))"
      using escape_not_low by simp
    have "v \<le> t" using less.prems by simp
    from copy_plain [OF p q this, of r]
    obtain r1 v1 where c: "copyChars t (codePoints plain) (r, v) = (r1, v1)" "v \<le> v1" "v1 \<le> t"
      "r @ takeVisible (nat (t - v)) (plain @ m @ rest) = r1 @ takeVisible (nat (t - v1)) (m @ rest)"
      by blast
    have rest: "rest = drop (li + j + n) text"
      by (simp add: rest_def add.commute add.left_commute)
    have ms: "matchAllFrom li ?xs = (li + j, m) # matchAllFrom (li + j + n) (drop (li + j + n) text)"
      unfolding rest [symmetric] using Some jn by (simp add: matchAllFrom_first m_def rest_def)
    have c1: "copyChars t (codePoints (slice text (int li) (int (li + j)))) (r, v) = (r1, v1)"
      by (simp only: sl c(1))
    have step: "walkMatches text t (matchAllFrom li ?xs) (r, v, li) =
      (if v1 \<ge> t then (r1, v1, li)
       else walkMatches text t (matchAllFrom (li + j + n) (drop (li + j + n) text))
              (r1 @ m, v1, li + j + n))"
      unfolding ms using walkMatches_step [OF c1, of m] lens(2) by (simp only:)
    show ?thesis
    proof (cases "v1 \<ge> t")
      case True
      then have "v1 = t" using c(3) by simp
      then have "walkText text t (matchAllFrom li ?xs) (r, v, li) = r1"
        unfolding walkText_def step by simp
      moreover have "r @ takeVisible (nat (t - v)) ?xs = r1"
        using c(4) \<open>v1 = t\<close> unfolding xs by simp
      ultimately show ?thesis by simp
    next
      case False
      then have lt: "v1 < t" by simp
      have "walkText text t (matchAllFrom li ?xs) (r, v, li) =
            walkText text t (matchAllFrom (li + j + n) (drop (li + j + n) text))
              (r1 @ m, v1, li + j + n)"
        unfolding walkText_def step using False by simp
      also have "\<dots> = (r1 @ m) @ takeVisible (nat (t - v1)) (drop (li + j + n) text)"
        using less.hyps [of "li + j + n" v1 "r1 @ m"] bound f(3) lt by simp
      also have "\<dots> = r1 @ takeVisible (nat (t - v1)) (m @ rest)"
      proof -
        have "ansiAt (m @ rest) = Some n" using f(1) mrest by simp
        from takeVisible_match [OF this, of "nat (t - v1)"] lt lens(2)
        show ?thesis unfolding rest [symmetric] by simp
      qed
      also have "\<dots> = r @ takeVisible (nat (t - v)) ?xs"
        using c(4) unfolding xs by simp
      finally show ?thesis .
    qed
  qed
qed

lemma takeVisible_prefix: "\<exists>r. s = takeVisible k s @ r"
proof (induction k s rule: takeVisible.induct)
  case (3 k c cs)
  show ?case
  proof (cases "ansiAt (c # cs)")
    case (Some n)
    with 3(3) obtain r where "drop n (c # cs) = takeVisible (Suc k) (drop n (c # cs)) @ r"
      by blast
    then have "c # cs = (take n (c # cs) @ takeVisible (Suc k) (drop n (c # cs))) @ r"
      by (metis append.assoc append_take_drop_id)
    then show ?thesis using Some by auto
  next
    case None
    show ?thesis
    proof (cases "isHighSurrogate c \<and> cs \<noteq> [] \<and> isLowSurrogate (hd cs)")
      case True
      with 3(1) [OF None] obtain r where "tl cs = takeVisible k (tl cs) @ r" by blast
      then have "c # cs = (c # hd cs # takeVisible k (tl cs)) @ r"
        using True by (cases cs) simp_all
      then show ?thesis using None True by auto
    next
      case False
      with 3(2) [OF None] obtain r where "cs = takeVisible k cs @ r" by blast
      then have "c # cs = (c # takeVisible k cs) @ r" by simp
      then show ?thesis using None False by auto
    qed
  qed
qed simp_all

lemma ansiAt_cut:
  assumes none: "ansiAt (c # cs) = None" and cs: "cs = tv @ r"
    and y: "y = [] \<or> hd y = 0x1B"
  shows "ansiAt (c # tv @ y) = None"
proof (cases "ansiAt (c # tv @ y)")
  case None
  then show ?thesis .
next
  case (Some n)
  then obtain ps rest where eq: "c # tv @ y = 0x1B # 0x5B # ps @ 0x6D # rest"
    and ps: "\<forall>p \<in> set ps. isParam p" and n: "n = length ps + 3"
    unfolding ansiAt_iff by blast
  let ?L = "0x1B # 0x5B # ps @ [0x6D :: jchar]"
  have eq': "(c # tv) @ y = ?L @ rest" using eq by simp
  then obtain us where us: "(c # tv = ?L @ us \<and> us @ y = rest) \<or> ((c # tv) @ us = ?L \<and> y = us @ rest)"
    unfolding append_eq_append_conv2 by blast
  have esc: "\<not> isParam 0x1B" by (simp add: isParam_def)
  show ?thesis
  proof (cases "c # tv = ?L @ us \<and> us @ y = rest")
    case True
    then have "c # cs = 0x1B # 0x5B # ps @ 0x6D # (us @ r)" using cs by simp
    then have "ansiAt (c # cs) = Some n" unfolding ansiAt_iff using ps n by blast
    then show ?thesis using none by simp
  next
    case False
    with us have b: "(c # tv) @ us = ?L" "y = us @ rest" by blast+
    show ?thesis
    proof (cases us)
      case Nil
      then have "c # tv = ?L @ []" "[] @ y = rest" using b by simp_all
      then have "c # cs = 0x1B # 0x5B # ps @ 0x6D # ([] @ r)" using cs by simp
      then have "ansiAt (c # cs) = Some n" unfolding ansiAt_iff using ps n by blast
      then show ?thesis using none by simp
    next
      case (Cons u us')
      then have "hd y = u" using b(2) by simp
      then have u: "u = 0x1B" using y b(2) Cons by auto
      have "u \<in> set (tl ?L)"
        using b(1) Cons by (metis list.sel(3) list.set_intros(1) in_set_conv_decomp append_Cons tl_append2 list.distinct(1))
      then have "u = 0x5B \<or> isParam u \<or> u = 0x6D" using ps by auto
      then show ?thesis using u esc by simp
    qed
  qed
qed

lemma hasSurrogatePair_tl: "\<not> hasSurrogatePair (c # cs) \<Longrightarrow> \<not> hasSurrogatePair cs"
  by (cases cs) auto

lemma hasSurrogatePair_drop: "\<not> hasSurrogatePair s \<Longrightarrow> \<not> hasSurrogatePair (drop n s)"
proof (induction s arbitrary: n)
  case Nil
  then show ?case by simp
next
  case (Cons c cs)
  then show ?case using hasSurrogatePair_tl [of c cs] by (cases n) auto
qed

lemma truncateToWidth_walk:
  "truncateToWidth s maxWidth e =
     (if int (visibleWidth s) \<le> maxWidth then s
      else if maxWidth - int (length e) \<le> 0 then slice e 0 maxWidth
      else walkText s (maxWidth - int (length e)) (matchAll s) ([], 0, 0) @ RESET @ e)"
  by (simp add: truncateToWidth_def walkText_def Let_def case_prod_beta)

lemma strip_takeVisible:
  assumes "\<not> hasSurrogatePair s" and "y = [] \<or> hd y = 0x1B"
  shows "stripAnsi (takeVisible k s @ y) = take k (stripAnsi s) @ stripAnsi y"
  using assms(1)
proof (induction k s rule: takeVisible.induct)
  case (1 s)
  show ?case by simp
next
  case (2 k)
  show ?case by simp
next
  case (3 k c cs)
  show ?case
  proof (cases "ansiAt (c # cs)")
    case (Some n)
    let ?m = "take n (c # cs)" and ?rest = "drop n (c # cs)"
    have len: "length ?m = n" using ansiAt_le [OF Some] by simp
    have np: "\<not> hasSurrogatePair ?rest" using "3.prems" by (rule hasSurrogatePair_drop)
    have a: "ansiAt (?m @ takeVisible (Suc k) ?rest @ y) = Some n"
      by (rule ansiAt_extend [OF Some])
    obtain e es where es: "?m @ takeVisible (Suc k) ?rest @ y = e # es"
      using ansiAt_head [OF a] by blast
    have "stripAnsi (?m @ takeVisible (Suc k) ?rest @ y) =
          stripAnsi (drop n (?m @ takeVisible (Suc k) ?rest @ y))"
      using a unfolding es by simp
    also have "\<dots> = stripAnsi (takeVisible (Suc k) ?rest @ y)" using len by simp
    also have "\<dots> = take (Suc k) (stripAnsi ?rest) @ stripAnsi y"
      using "3.IH"(3) [OF Some np] .
    also have "stripAnsi ?rest = stripAnsi (c # cs)" using Some by simp
    finally show ?thesis using Some by simp
  next
    case None
    have nopair: "\<not> (isHighSurrogate c \<and> cs \<noteq> [] \<and> isLowSurrogate (hd cs))"
      using "3.prems" by (cases cs) auto
    then have nopair': "(isHighSurrogate c \<and> cs \<noteq> [] \<and> isLowSurrogate (hd cs)) = False"
      by simp
    have np: "\<not> hasSurrogatePair cs" using "3.prems" by (cases cs) auto
    obtain r where r: "cs = takeVisible k cs @ r" using takeVisible_prefix by blast
    have cut: "ansiAt (c # takeVisible k cs @ y) = None"
      by (rule ansiAt_cut [OF None r assms(2)])
    have "takeVisible (Suc k) (c # cs) = c # takeVisible k cs"
      using None by (simp add: nopair')
    then have "stripAnsi (takeVisible (Suc k) (c # cs) @ y) = c # stripAnsi (takeVisible k cs @ y)"
      using cut by simp
    also have "\<dots> = c # take k (stripAnsi cs) @ stripAnsi y"
      using "3.IH"(2) [OF None nopair np] by simp
    finally show ?thesis using None by simp
  qed
qed

lemma strip_RESET: "stripAnsi (RESET @ e) = stripAnsi e"
  by (simp add: RESET_def str_def isParam_def)

lemma truncate_walk:
  assumes "0 < t"
  shows "walkText s t (matchAll s) ([], 0, 0) = takeVisible (nat t) s"
  using walk_refines [of 0 s 0 t "[]"] assms by (simp add: matchAll_def)

lemma truncate_refines:
  assumes "maxWidth < int (visibleWidth s)"
  shows "truncateToWidth s maxWidth e =
           (if maxWidth \<le> int (length e) then slice e 0 maxWidth
            else takeVisible (nat (maxWidth - int (length e))) s @ RESET @ e)"
proof (cases "maxWidth \<le> int (length e)")
  case True
  then show ?thesis using assms by (simp add: truncateToWidth_walk)
next
  case False
  then have t: "0 < maxWidth - int (length e)" by simp
  from truncate_walk [OF t, of s]
  show ?thesis using assms False
    by (simp add: truncateToWidth_walk)
qed

lemma truncate_identity:
  "int (visibleWidth s) \<le> maxWidth \<Longrightarrow> truncateToWidth s maxWidth e = s"
  by (simp add: truncateToWidth_def)

lemma truncate_bound_no_pairs:
  assumes "\<not> hasSurrogatePair s" and "0 \<le> maxWidth"
  shows "int (visibleWidth (truncateToWidth3 s maxWidth)) \<le> maxWidth"
proof (cases "int (visibleWidth s) \<le> maxWidth")
  case True
  then show ?thesis by (simp add: truncateToWidth3_def truncate_identity)
next
  case False
  then have w: "maxWidth < int (visibleWidth s)" by simp
  let ?e = "str ''...''"
  have le: "length ?e = 3" by (simp add: str_def)
  have noesc: "0x1B \<notin> set ?e" by (simp add: str_def)
  show ?thesis
  proof (cases "maxWidth \<le> 3")
    case True
    then have r: "truncateToWidth3 s maxWidth = take (nat maxWidth) ?e"
      using truncate_refines [OF w, of ?e] assms(2) le
      by (simp add: truncateToWidth3_def slice_def)
    have "0x1B \<notin> set (take (nat maxWidth) ?e)"
      using noesc by (meson in_set_takeD)
    then have "stripAnsi (take (nat maxWidth) ?e) = take (nat maxWidth) ?e"
      by (rule stripAnsi_no_escape)
    then show ?thesis using r True assms(2) le by (simp add: visibleWidth_def)
  next
    case False
    let ?k = "nat (maxWidth - 3)"
    have r: "truncateToWidth3 s maxWidth = takeVisible ?k s @ RESET @ ?e"
      using truncate_refines [OF w, of ?e] False le by (simp add: truncateToWidth3_def)
    have "hd (RESET @ ?e) = 0x1B" by (simp add: RESET_def)
    then have "stripAnsi (takeVisible ?k s @ RESET @ ?e) = take ?k (stripAnsi s) @ stripAnsi (RESET @ ?e)"
      using strip_takeVisible [OF assms(1), of "RESET @ ?e" ?k] by simp
    also have "\<dots> = take ?k (stripAnsi s) @ ?e"
      using stripAnsi_no_escape [OF noesc] by (simp add: strip_RESET)
    finally show ?thesis using r False le by (simp add: visibleWidth_def)
  qed
qed

section \<open>The claims about truncation\<close>

text \<open>
  Claim C2, as amended. For a string wider than \<open>maxWidth\<close>: when \<open>maxWidth\<close> is at most
  the length of the ellipsis, counted in code units with any styling in it, the result
  is the first \<open>maxWidth\<close> code units of the ellipsis; otherwise it is the walk of the
  string up to \<open>maxWidth\<close> minus that length plain characters, then the reset sequence,
  then the ellipsis. The walk is a prefix of the string: it copies every style-escape
  sequence it meets and stops right after the last plain character of the budget, so
  sequences after that point are not copied. In a string without surrogate pairs the
  plain characters of the walk are exactly the first that many of the string.
\<close>

theorem C2_truncate_amended:
  assumes "maxWidth < int (visibleWidth s)"
  shows "truncateToWidth s maxWidth e =
           (if maxWidth \<le> int (length e) then slice e 0 maxWidth
            else takeVisible (nat (maxWidth - int (length e))) s @ RESET @ e) \<and>
         (\<exists>rest. s = takeVisible (nat (maxWidth - int (length e))) s @ rest) \<and>
         (\<not> hasSurrogatePair s \<and> int (length e) < maxWidth \<longrightarrow>
            stripAnsi (takeVisible (nat (maxWidth - int (length e))) s) =
              take (nat (maxWidth - int (length e))) (stripAnsi s) \<and>
            length (stripAnsi (takeVisible (nat (maxWidth - int (length e))) s)) =
              nat (maxWidth - int (length e)))"
proof -
  have cnt: "stripAnsi (takeVisible (nat (maxWidth - int (length e))) s) =
              take (nat (maxWidth - int (length e))) (stripAnsi s)"
    if "\<not> hasSurrogatePair s"
    using strip_takeVisible [OF that, of "[]"] by simp
  have "nat (maxWidth - int (length e)) \<le> length (stripAnsi s)"
    using assms by (simp add: visibleWidth_def)
  then show ?thesis using truncate_refines [OF assms] cnt takeVisible_prefix by auto
qed

theorem C2_truncate_witness:
  "8 < int (visibleWidth styledText) \<and> \<not> hasSurrogatePair styledText \<and>
   int (length (str ''...'')) < 8 \<and>
   truncateToWidth styledText 8 (str ''...'') =
     str ''ab'' @ 0x1B # str ''[1mcde'' @ RESET @ str ''...'' \<and>
   stripAnsi (takeVisible 5 styledText) = str ''abcde''"
proof -
  have w: "8 < int (visibleWidth styledText)" by code_simp
  have t: "takeVisible 5 styledText = str ''ab'' @ 0x1B # str ''[1mcde''" by code_simp
  have s: "stripAnsi styledText = str ''abcdefghij''" by code_simp
  have n: "\<not> hasSurrogatePair styledText" by code_simp
  have len: "int (length (str ''...'')) = 3" by (simp add: str_def)
  have k: "nat (8 - 3) = 5" by simp
  note th = C2_truncate_amended [OF w, of "str ''...''", unfolded len k]
  have a: "truncateToWidth styledText 8 (str ''...'') = takeVisible 5 styledText @ RESET @ str ''...''"
    using th by simp
  have b: "stripAnsi (takeVisible 5 styledText) = take 5 (stripAnsi styledText)"
    using th n by simp
  have c: "take 5 (str ''abcdefghij'') = str ''abcde''" by (simp add: str_def)
  have d: "stripAnsi (takeVisible 5 styledText) = str ''abcde''"
    by (simp only: b s c)
  have e: "truncateToWidth styledText 8 (str ''...'') =
      str ''ab'' @ 0x1B # str ''[1mcde'' @ RESET @ str ''...''"
    by (simp only: a t append_assoc append_Cons)
  show ?thesis
    using w n len d e by simp
qed

text \<open>
  Claim C2 as stated fails in two ways. With \<open>maxWidth\<close> equal to the width of the
  ellipsis, not smaller, the result is the bare ellipsis, with no reset sequence. With
  an ellipsis that carries styling, the budget is \<open>maxWidth\<close> minus its length in code
  units, not minus its visible width: for a bold two-dot ellipsis of length 6 and width
  2 and \<open>maxWidth\<close> 8, two plain characters are copied, not six.
\<close>

theorem C2_truncate_counterexample:
  "3 < int (visibleWidth (str ''abcd'')) \<and> \<not> 3 < int (visibleWidth (str ''...'')) \<and>
   truncateToWidth (str ''abcd'') 3 (str ''...'') = str ''...'' \<and>
   truncateToWidth (str ''abcd'') 3 (str ''...'') \<noteq>
     takeVisible (3 - visibleWidth (str ''...'')) (str ''abcd'') @ RESET @ str ''...'' \<and>
   8 < int (visibleWidth (str ''abcdefghij'')) \<and>
   visibleWidth (0x1B # str ''[1m..'') = 2 \<and>
   truncateToWidth (str ''abcdefghij'') 8 (0x1B # str ''[1m..'') =
     str ''ab'' @ RESET @ 0x1B # str ''[1m..'' \<and>
   truncateToWidth (str ''abcdefghij'') 8 (0x1B # str ''[1m..'') \<noteq>
     takeVisible (8 - visibleWidth (0x1B # str ''[1m..'')) (str ''abcdefghij'') @ RESET @
     0x1B # str ''[1m..''"
  by code_simp

text \<open>
  Claim C1 fails on the code for strings with characters outside the basic plane: the
  loops count one step per code point, and \<open>visibleWidth\<close> counts code units. Four
  emoji are 8 code units wide; cut to 7 the budget is 4 characters, all four are copied,
  and the result is 11 wide. On a terminal of 80 columns, 45 emoji (90 code units) come
  back 93 wide. The identity below the threshold holds for every string
  (\<open>truncate_identity\<close>), and the bound holds for every string without surrogate pairs
  (\<open>truncate_bound_no_pairs\<close>).
\<close>

theorem C1_truncate_exceeds_width:
  "visibleWidth (concat (replicate 4 emoji)) = 8 \<and>
   visibleWidth (truncateToWidth3 (concat (replicate 4 emoji)) 7) = 11 \<and>
   visibleWidth (concat (replicate 45 emoji)) = 90 \<and>
   visibleWidth (truncateToWidth3 (concat (replicate 45 emoji)) 80) = 93"
  by code_simp

section \<open>Properties of the display\<close>

subsection \<open>What an event leaves alone\<close>

lemma update_frame:
  "updateFromAssistantMessage h msg p =
     p\<lparr>currentToolName := currentToolName (updateFromAssistantMessage h msg p),
       currentActivity := currentActivity (updateFromAssistantMessage h msg p),
       currentActivityType := currentActivityType (updateFromAssistantMessage h msg p)\<rparr>"
  by (simp add: updateFromAssistantMessage_def Let_def split: Content.splits)

lemma update_keeps:
  "isActive (updateFromAssistantMessage h msg p) = isActive p"
  "hasRenderedOnce (updateFromAssistantMessage h msg p) = hasRenderedOnce p"
  "hasReceivedStats (updateFromAssistantMessage h msg p) = hasReceivedStats p"
  "usage (updateFromAssistantMessage h msg p) = usage p"
  "contextUsage (updateFromAssistantMessage h msg p) = contextUsage p"
  "model (updateFromAssistantMessage h msg p) = model p"
  "thinkingLevel (updateFromAssistantMessage h msg p) = thinkingLevel p"
  "startTime (updateFromAssistantMessage h msg p) = startTime p"
  "spinnerFrame (updateFromAssistantMessage h msg p) = spinnerFrame p"
  "spinnerInterval (updateFromAssistantMessage h msg p) = spinnerInterval p"
  by (subst update_frame, simp)+

lemma applyEvent_keeps:
  "isActive (applyEvent h e p) = isActive p"
  "hasRenderedOnce (applyEvent h e p) = hasRenderedOnce p"
  "model (applyEvent h e p) = model p"
  "thinkingLevel (applyEvent h e p) = thinkingLevel p"
  "startTime (applyEvent h e p) = startTime p"
  "spinnerFrame (applyEvent h e p) = spinnerFrame p"
  "spinnerInterval (applyEvent h e p) = spinnerInterval p"
  "window (contextUsage (applyEvent h e p)) = window (contextUsage p)"
  by (cases e; simp add: applyEvent_def update_keeps)+


subsection \<open>Rendering, active and inactive\<close>

lemma render_inactive: "\<not> isActive p \<Longrightarrow> render h (p, w) = (p, w)"
  by (simp add: render_def)

lemma render_active:
  "isActive p \<Longrightarrow> render h (p, w) = (p\<lparr>hasRenderedOnce := True\<rparr>, stderrWrite (frame h p) w)"
  by (simp add: render_def)

lemma stop_inactive: "\<not> isActive (fst (stop s))"
  by (cases s) (simp add: stop_def Let_def split: option.splits)

lemma deliver_inactive:
  "\<not> isActive (fst s) \<Longrightarrow>
   \<exists>k. deliver c s = (fst s\<lparr>spinnerFrame := k\<rparr>, snd s)"
proof (cases c)
  case (Event h e)
  assume "\<not> isActive (fst s)"
  then have "deliver c s = (fst s\<lparr>spinnerFrame := spinnerFrame (fst s)\<rparr>, snd s)"
    using Event by (cases s) (simp add: handleEvent_def)
  then show ?thesis ..
next
  case (Tick h)
  assume "\<not> isActive (fst s)"
  then show ?thesis
    using Tick by (cases s) (auto simp add: tick_def render_def)
qed

lemma run_inactive:
  "\<not> isActive (fst s) \<Longrightarrow> \<exists>k. run cs s = (fst s\<lparr>spinnerFrame := k\<rparr>, snd s)"
proof (induction cs arbitrary: s)
  case Nil
  have "run [] s = (fst s\<lparr>spinnerFrame := spinnerFrame (fst s)\<rparr>, snd s)"
    by (simp add: run_def)
  then show ?case ..
next
  case (Cons c cs)
  from deliver_inactive [OF Cons.prems, of c]
  obtain k where k: "deliver c s = (fst s\<lparr>spinnerFrame := k\<rparr>, snd s)" ..
  have "\<not> isActive (fst (deliver c s))" using k Cons.prems by simp
  from Cons.IH [OF this]
  obtain k' where "run cs (deliver c s) = (fst (deliver c s)\<lparr>spinnerFrame := k'\<rparr>, snd (deliver c s))" ..
  then have "run (c # cs) s = (fst s\<lparr>spinnerFrame := k'\<rparr>, snd s)"
    using k by (simp add: run_def)
  then show ?case ..
qed

lemma deliver_active:
  "isActive p \<Longrightarrow>
   deliver c (p, w) =
     (stepState c p\<lparr>hasRenderedOnce := True\<rparr>, stderrWrite (frame (hostOf c) (stepState c p)) w)"
  by (cases c) (simp_all add: handleEvent_def tick_def render_def applyEvent_keeps)

lemma stepState_keeps:
  "isActive (stepState c p) = isActive p"
  "hasRenderedOnce (stepState c p) = hasRenderedOnce p"
  "model (stepState c p) = model p"
  "thinkingLevel (stepState c p) = thinkingLevel p"
  "startTime (stepState c p) = startTime p"
  "window (contextUsage (stepState c p)) = window (contextUsage p)"
  by (cases c; simp add: applyEvent_keeps)+

lemma lines_ignore_flag:
  "buildActivityLine h (p\<lparr>hasRenderedOnce := b\<rparr>) = buildActivityLine h p"
  "buildStatsLine h (p\<lparr>hasRenderedOnce := b\<rparr>) = buildStatsLine h p"
  by (simp_all add: buildActivityLine_def buildStatsLine_def statsParts_def
      formatElapsedTime_def cong: ActivityType.case_cong option.case_cong if_cong)

lemma frame_shape:
  "frame h p =
     (if hasRenderedOnce p then MOVE_UP_3 else []) @
     fourLines (displayed h (buildActivityLine h p)) (displayed h (buildStatsLine h p))"
  by (simp add: frame_def Let_def displayed_def fourLines_def)

lemma start_state:
  "start h mdl lvl (p, w) =
     (p\<lparr>model := mdl, thinkingLevel := lvl, startTime := now h, isActive := True,
        hasReceivedStats := False, currentActivity := str ''Starting...'',
        currentActivityType := SystemActivity,
        contextUsage := \<lparr>tokens = 0, window = (case mdl of None \<Rightarrow> 0 | Some m \<Rightarrow> contextWindow m)\<rparr>,
        hasRenderedOnce := True, spinnerInterval := Some (timerSeq w)\<rparr>,
      stderrWrite
        (frame h (p\<lparr>model := mdl, thinkingLevel := lvl, startTime := now h, isActive := True,
           hasReceivedStats := False, currentActivity := str ''Starting...'',
           currentActivityType := SystemActivity,
           contextUsage := \<lparr>tokens = 0, window = (case mdl of None \<Rightarrow> 0 | Some m \<Rightarrow> contextWindow m)\<rparr>,
           hasRenderedOnce := False, spinnerInterval := Some (timerSeq w)\<rparr>))
        (w\<lparr>timers := timers w @ [timerSeq w], timerSeq := Suc (timerSeq w)\<rparr>))"
  by (simp add: start_def setInterval_def render_def Let_def)


lemma deliver_repaint:
  assumes "isActive q" and "hasRenderedOnce q"
  shows "stderr (snd (deliver c (q, v))) =
           stderr v @
           [MOVE_UP_3 @
            fourLines (displayed (hostOf c) (buildActivityLine (hostOf c) (fst (deliver c (q, v)))))
                      (displayed (hostOf c) (buildStatsLine (hostOf c) (fst (deliver c (q, v)))))]"
    and "isActive (fst (deliver c (q, v)))"
    and "hasRenderedOnce (fst (deliver c (q, v)))"
  using assms
  by (simp_all add: deliver_active stepState_keeps frame_shape lines_ignore_flag stderrWrite_def)

lemma run_repaints:
  "isActive q \<Longrightarrow> hasRenderedOnce q \<Longrightarrow>
   \<exists>rest. stderr (snd (run cs (q, v))) = stderr v @ rest \<and> length rest = length cs \<and>
          (\<forall>c \<in> set rest. \<exists>a s. c = MOVE_UP_3 @ fourLines a s)"
proof (induction cs arbitrary: q v)
  case Nil
  show ?case by (simp add: run_def)
next
  case (Cons c cs)
  obtain q' v' where d: "deliver c (q, v) = (q', v')" by (cases "deliver c (q, v)")
  from deliver_repaint [OF Cons.prems, of c v] d
  obtain a s where w: "stderr v' = stderr v @ [MOVE_UP_3 @ fourLines a s]"
    and q': "isActive q'" "hasRenderedOnce q'" by auto
  from Cons.IH [OF q', of v']
  obtain rest where r: "stderr (snd (run cs (q', v'))) = stderr v' @ rest"
    "length rest = length cs" "\<forall>c \<in> set rest. \<exists>a s. c = MOVE_UP_3 @ fourLines a s" by blast
  have "stderr (snd (run (c # cs) (q, v))) = stderr v @ ((MOVE_UP_3 @ fourLines a s) # rest)"
    using r(1) w d by (simp add: run_def)
  moreover have "length ((MOVE_UP_3 @ fourLines a s) # rest) = length (c # cs)"
    using r(2) by simp
  moreover have "\<forall>c \<in> set ((MOVE_UP_3 @ fourLines a s) # rest). \<exists>a s. c = MOVE_UP_3 @ fourLines a s"
    using r(3) by auto
  ultimately show ?case by blast
qed

lemma stepState_usage:
  "input (usage (stepState c p)) = input (usage p) + sum_list (map input (completedUsage c))"
  "output (usage (stepState c p)) = output (usage p) + sum_list (map output (completedUsage c))"
  "cacheRead (usage (stepState c p)) = cacheRead (usage p) + sum_list (map cacheRead (completedUsage c))"
  "cacheWrite (usage (stepState c p)) = cacheWrite (usage p) + sum_list (map cacheWrite (completedUsage c))"
  "cost (usage (stepState c p)) = foldl (+) (cost (usage p)) (map cost (completedUsage c))"
  "hasReceivedStats (stepState c p) = (hasReceivedStats p \<or> completedUsage c \<noteq> [])"
  "tokens (contextUsage (stepState c p)) =
     (if completedUsage c = [] then tokens (contextUsage p) else tokenTotal (last (completedUsage c)))"
proof -
  show "input (usage (stepState c p)) = input (usage p) + sum_list (map input (completedUsage c))"
    by (cases c; simp; rename_tac h e; case_tac e; simp add: applyEvent_def update_keeps)
  show "output (usage (stepState c p)) = output (usage p) + sum_list (map output (completedUsage c))"
    by (cases c; simp; rename_tac h e; case_tac e; simp add: applyEvent_def update_keeps)
  show "cacheRead (usage (stepState c p)) = cacheRead (usage p) + sum_list (map cacheRead (completedUsage c))"
    by (cases c; simp; rename_tac h e; case_tac e; simp add: applyEvent_def update_keeps)
  show "cacheWrite (usage (stepState c p)) = cacheWrite (usage p) + sum_list (map cacheWrite (completedUsage c))"
    by (cases c; simp; rename_tac h e; case_tac e; simp add: applyEvent_def update_keeps)
  show "cost (usage (stepState c p)) = foldl (+) (cost (usage p)) (map cost (completedUsage c))"
    by (cases c; simp; rename_tac h e; case_tac e; simp add: applyEvent_def update_keeps)
  show "hasReceivedStats (stepState c p) = (hasReceivedStats p \<or> completedUsage c \<noteq> [])"
    by (cases c; simp; rename_tac h e; case_tac e; simp add: applyEvent_def update_keeps)
  show "tokens (contextUsage (stepState c p)) =
     (if completedUsage c = [] then tokens (contextUsage p) else tokenTotal (last (completedUsage c)))"
    by (cases c; simp; rename_tac h e; case_tac e; simp add: applyEvent_def update_keeps tokenTotal_def)
qed


lemma run_usage:
  "isActive p \<Longrightarrow>
   input (usage (fst (run cs (p, w)))) = input (usage p) + sum_list (map input (completed cs)) \<and>
   output (usage (fst (run cs (p, w)))) = output (usage p) + sum_list (map output (completed cs)) \<and>
   cacheRead (usage (fst (run cs (p, w)))) =
     cacheRead (usage p) + sum_list (map cacheRead (completed cs)) \<and>
   cacheWrite (usage (fst (run cs (p, w)))) =
     cacheWrite (usage p) + sum_list (map cacheWrite (completed cs)) \<and>
   cost (usage (fst (run cs (p, w)))) = foldl (+) (cost (usage p)) (map cost (completed cs)) \<and>
   hasReceivedStats (fst (run cs (p, w))) = (hasReceivedStats p \<or> completed cs \<noteq> []) \<and>
   tokens (contextUsage (fst (run cs (p, w)))) =
     (if completed cs = [] then tokens (contextUsage p) else tokenTotal (last (completed cs)))"
proof (induction cs arbitrary: p w)
  case Nil
  then show ?case by (simp add: run_def completed_def)
next
  case (Cons c cs)
  have "isActive (stepState c p\<lparr>hasRenderedOnce := True\<rparr>)"
    using Cons.prems by (simp add: stepState_keeps)
  from Cons.IH [OF this, of "stderrWrite (frame (hostOf c) (stepState c p)) w"] show ?case
    using Cons.prems
    by (simp add: run_def deliver_active stepState_usage completed_def)
qed


lemma new_usage:
  "usage (newPrintModeProgress h0) = \<lparr>input = 0, output = 0, cacheRead = 0, cacheWrite = 0, cost = 0\<rparr>"
  by (simp add: newPrintModeProgress_def)


lemma exampleSession_on:
  "isActive (fst exampleSession)" "hasRenderedOnce (fst exampleSession)"
  by (simp_all add: exampleSession_def start_state)

lemma completed_exampleCalls: "completed exampleCalls = [usageA, usageB]"
  by (simp add: completed_def exampleCalls_def exampleMessage_def)

lemma formatTokens_small: "0 \<le> n \<Longrightarrow> n < 1000 \<Longrightarrow> formatTokens h n = digits (nat n)"
  by (simp add: formatTokens_def showInt_def)

lemma example_formats:
  "formatTokens exampleHost 300 = str ''300''"
  "formatTokens exampleHost 150 = str ''150''"
  "formatTokens exampleHost 0 = str ''0''"
  by (simp_all add: formatTokens_small digits.simps digit_def str_def)

lemma example_cost: "toFixed exampleHost (3 / 100) 3 = str ''0.030''"
  by code_simp

lemma trim_Nil_iff: "trim s = [] \<longleftrightarrow> (\<forall>c \<in> set s. isWhiteSpace c)"
proof -
  have "trim s = [] \<longleftrightarrow> (\<forall>c \<in> set (dropWhile isWhiteSpace s). isWhiteSpace c)"
    by (simp add: trim_def dropWhile_eq_Nil_conv)
  also have "\<dots> \<longleftrightarrow> dropWhile isWhiteSpace s = []"
  proof
    assume a: "\<forall>c \<in> set (dropWhile isWhiteSpace s). isWhiteSpace c"
    show "dropWhile isWhiteSpace s = []"
    proof (rule ccontr)
      assume n: "dropWhile isWhiteSpace s \<noteq> []"
      then have "\<not> isWhiteSpace (hd (dropWhile isWhiteSpace s))" by (rule hd_dropWhile)
      moreover have "hd (dropWhile isWhiteSpace s) \<in> set (dropWhile isWhiteSpace s)"
        using n by simp
      ultimately show False using a by blast
    qed
  qed (simp del: dropWhile_eq_Nil_conv)
  also have "\<dots> \<longleftrightarrow> (\<forall>c \<in> set s. isWhiteSpace c)"
    by (simp add: dropWhile_eq_Nil_conv)
  finally show ?thesis .
qed

lemma set_collapseSpaces: "set (collapseSpaces xs) \<subseteq> set xs"
  by (induction xs rule: collapseSpaces.induct) auto

lemma space_isWhiteSpace: "isWhiteSpace 0x20"
  by (simp add: isWhiteSpace_def)

lemma normalizeText_blank: "trim t = [] \<Longrightarrow> normalizeText t = []"
proof -
  assume "trim t = []"
  then have ws: "\<forall>c \<in> set t. isWhiteSpace c" by (simp add: trim_Nil_iff)
  let ?m = "map (\<lambda>c. if c = 0x0D \<or> c = 0x0A \<or> c = 0x09 then 0x20 else c) t"
  have "\<forall>c \<in> set ?m. isWhiteSpace c"
    using ws space_isWhiteSpace by auto
  then have "\<forall>c \<in> set (collapseSpaces ?m). isWhiteSpace c"
    using set_collapseSpaces [of ?m] by blast
  then show ?thesis by (simp add: normalizeText_def trim_Nil_iff)
qed

lemma last_filter_split:
  "xs = pre @ x # post \<Longrightarrow> P x \<Longrightarrow> \<not> list_ex P post \<Longrightarrow>
   filter P xs \<noteq> [] \<and> last (filter P xs) = x"
  by (simp add: list_ex_iff filter_empty_conv[THEN iffD2])

lemma filter_none: "\<not> list_ex P xs \<Longrightarrow> filter P xs = []"
  by (simp add: list_ex_iff filter_empty_conv)

section \<open>The claims about the display\<close>

text \<open>
  Claim C9. After \<open>stop()\<close> the display is inactive, and then \<open>handleEvent\<close> returns the
  object and the terminal as they are; a timer callback that still arrives advances the
  spinner index and writes nothing. Over any run of calls after \<open>stop()\<close> nothing is
  written and the usage totals and the activity stay as they were.
\<close>

theorem C9_noop_after_stop:
  "handleEvent h e (stop s) = stop s \<and>
   stderr (snd (tick h (stop s))) = stderr (snd (stop s)) \<and>
   stderr (snd (run cs (stop s))) = stderr (snd (stop s)) \<and>
   usage (fst (run cs (stop s))) = usage (fst (stop s)) \<and>
   currentActivity (fst (run cs (stop s))) = currentActivity (fst (stop s)) \<and>
   currentActivityType (fst (run cs (stop s))) = currentActivityType (fst (stop s)) \<and>
   currentToolName (fst (run cs (stop s))) = currentToolName (fst (stop s))"
proof -
  have off: "\<not> isActive (fst (stop s))" by (rule stop_inactive)
  have 1: "handleEvent h e (stop s) = stop s"
    using off by (cases "stop s") (simp add: handleEvent_def)
  have 2: "stderr (snd (tick h (stop s))) = stderr (snd (stop s))"
    using off by (cases "stop s") (simp add: tick_def render_def)
  obtain k where "run cs (stop s) = (fst (stop s)\<lparr>spinnerFrame := k\<rparr>, snd (stop s))"
    using run_inactive [OF off] ..
  then show ?thesis using 1 2 by simp
qed


text \<open>
  Claim C10. While the display is active every call of \<open>handleEvent\<close> writes exactly one
  chunk, the frame of the state after the event, and leaves the display active. An event
  of a kind the \<open>switch\<close> does not list, or a message of another role, changes nothing
  of the object but the painted-before flag, and is repainted all the same.
\<close>

theorem C10_one_write_per_event:
  "isActive p \<Longrightarrow>
   stderr (snd (handleEvent h e (p, w))) = stderr w @ [frame h (applyEvent h e p)] \<and>
   isActive (fst (handleEvent h e (p, w))) \<and>
   (unrecognised e \<longrightarrow>
      applyEvent h e p = p \<and> fst (handleEvent h e (p, w)) = p\<lparr>hasRenderedOnce := True\<rparr>)"
proof -
  assume on: "isActive p"
  have act: "isActive (applyEvent h e p)" using on by (simp add: applyEvent_keeps)
  have he: "handleEvent h e (p, w) =
      (applyEvent h e p\<lparr>hasRenderedOnce := True\<rparr>, stderrWrite (frame h (applyEvent h e p)) w)"
    using on render_active [OF act] by (simp add: handleEvent_def)
  have same: "unrecognised e \<Longrightarrow> applyEvent h e p = p"
    by (cases e) (simp_all add: unrecognised_def applyEvent_def)
  show ?thesis
    using act same by (auto simp add: he stderrWrite_def)
qed

theorem C10_one_write_per_event_witness:
  "isActive (fst exampleSession) \<and>
   unrecognised (other_event (str ''agent_start'') :: rat AgentSessionEvent) \<and>
   stderr (snd (handleEvent exampleHost (other_event (str ''agent_start'')) exampleSession)) =
     stderr (snd exampleSession) @ [frame exampleHost (fst exampleSession)] \<and>
   length (stderr (snd (handleEvent exampleHost (other_event (str ''agent_start'')) exampleSession))) = 2"
proof -
  have one: "length (stderr (snd exampleSession)) = 1"
    by (simp add: exampleSession_def start_state stderrWrite_def exampleWorld_def)
  have un: "unrecognised (other_event (str ''agent_start'') :: rat AgentSessionEvent)"
    by (simp add: unrecognised_def)
  from C10_one_write_per_event [OF exampleSession_on(1), of exampleHost
      "other_event (str ''agent_start'')" "snd exampleSession"] un one
  show ?thesis by (simp add: exampleSession_on)
qed

text \<open>
  Claim C4. \<open>start\<close> writes the first frame of a session: the four lines, each after a
  clear-line sequence, with nothing before them. Every later call on the active display
  writes one chunk that begins with cursor-up-3 and carriage return and then has the same
  four lines; so do all chunks of any run after \<open>start\<close>. Every frame ends with a line
  feed and a clear-line sequence: nothing is written on the fourth line.
\<close>

theorem C4_render_protocol:
  "stderr (snd (start h mdl lvl (p, w))) =
     stderr w @
     [fourLines (displayed h (buildActivityLine h (fst (start h mdl lvl (p, w)))))
                (displayed h (buildStatsLine h (fst (start h mdl lvl (p, w)))))] \<and>
   (isActive q \<and> hasRenderedOnce q \<longrightarrow>
      stderr (snd (deliver c (q, v))) =
        stderr v @
        [MOVE_UP_3 @
         fourLines (displayed (hostOf c) (buildActivityLine (hostOf c) (fst (deliver c (q, v)))))
                   (displayed (hostOf c) (buildStatsLine (hostOf c) (fst (deliver c (q, v)))))] \<and>
      isActive (fst (deliver c (q, v))) \<and> hasRenderedOnce (fst (deliver c (q, v)))) \<and>
   (\<exists>first rest.
      stderr (snd (run cs (start h mdl lvl (p, w)))) = stderr w @ first # rest \<and>
      (\<exists>a s. first = fourLines a s) \<and> length rest = length cs \<and>
      (\<forall>c \<in> set rest. \<exists>a s. c = MOVE_UP_3 @ fourLines a s))"
proof -
  let ?s = "start h mdl lvl (p, w)"
  have first: "stderr (snd ?s) =
     stderr w @
     [fourLines (displayed h (buildActivityLine h (fst ?s))) (displayed h (buildStatsLine h (fst ?s)))]"
    by (simp add: start_state frame_shape stderrWrite_def buildActivityLine_def
        buildStatsLine_def statsParts_def formatElapsedTime_def
        cong: ActivityType.case_cong option.case_cong if_cong)
  have on: "isActive (fst ?s)" "hasRenderedOnce (fst ?s)"
    by (simp_all add: start_state)
  from run_repaints [OF on, of cs "snd ?s"]
  obtain rest where r: "stderr (snd (run cs ?s)) = stderr (snd ?s) @ rest"
    "length rest = length cs" "\<forall>c \<in> set rest. \<exists>a s. c = MOVE_UP_3 @ fourLines a s"
    by auto
  have "\<exists>first rest.
      stderr (snd (run cs ?s)) = stderr w @ first # rest \<and>
      (\<exists>a s. first = fourLines a s) \<and> length rest = length cs \<and>
      (\<forall>c \<in> set rest. \<exists>a s. c = MOVE_UP_3 @ fourLines a s)"
    using r first by auto
  then show ?thesis
    using first deliver_repaint [of q c v] by blast
qed

theorem C4_render_protocol_witness:
  "isActive (fst exampleSession) \<and> hasRenderedOnce (fst exampleSession) \<and>
   stderr (snd (deliver (Tick exampleHost) exampleSession)) =
     stderr (snd exampleSession) @
     [MOVE_UP_3 @
      fourLines
        (displayed exampleHost
           (buildActivityLine exampleHost (fst (deliver (Tick exampleHost) exampleSession))))
        (displayed exampleHost
           (buildStatsLine exampleHost (fst (deliver (Tick exampleHost) exampleSession))))]"
  using C4_render_protocol [of exampleHost "Some exampleModel" "str ''off''"
      "newPrintModeProgress exampleHost" exampleWorld "fst exampleSession"
      "Tick exampleHost" "snd exampleSession" "[]"]
  by (simp add: exampleSession_on)

text \<open>
  Claim C5 fails on the code: \<open>start\<close> leaves the usage totals as they are. A session
  that follows an earlier one on the same object starts from the earlier totals: after
  one message of 100 input and 50 output tokens at a cost of 0.01, \<open>stop\<close>, \<open>start\<close> and a
  message of 200 and 100 tokens at 0.02, the stats line shows 300, 150 and 0.030.
\<close>

theorem C5_start_keeps_usage:
  "usage (fst (start h mdl lvl (p, w))) = usage p \<and>
   take 5 (statsParts exampleHost
       (fst (handleEvent exampleHost (message_end (exampleMessage [] usageB))
          (start exampleHost (Some exampleModel) (str ''off'')
             (stop (handleEvent exampleHost (message_end (exampleMessage [] usageA))
                exampleSession)))))) =
     [0x2191 # str ''300'', 0x2193 # str ''150'', str ''R0'', str ''W0'', str ''$0.030'']"
proof -
  have "take 5 (statsParts exampleHost
       (fst (handleEvent exampleHost (message_end (exampleMessage [] usageB))
          (start exampleHost (Some exampleModel) (str ''off'')
             (stop (handleEvent exampleHost (message_end (exampleMessage [] usageA))
                exampleSession)))))) =
     [0x2191 # str ''300'', 0x2193 # str ''150'', str ''R0'', str ''W0'', str ''$0.030'']"
    by code_simp
  then show ?thesis by (simp add: start_state)
qed

text \<open>
  Claim C6. In a session on a new object, after any run of calls, each usage total is the
  sum of that field over the completed assistant messages of the run, the cost being
  added up in their order. The stats-received flag is set as soon as there is one such
  message; from then on the context token count is the sum of the four token fields of
  the last of them, and the first five segments of the stats line show the totals.
\<close>

theorem C6_usage_totals:
  "input (usage (fst (session h0 w h mdl lvl cs))) = sum_list (map input (completed cs)) \<and>
   output (usage (fst (session h0 w h mdl lvl cs))) = sum_list (map output (completed cs)) \<and>
   cacheRead (usage (fst (session h0 w h mdl lvl cs))) = sum_list (map cacheRead (completed cs)) \<and>
   cacheWrite (usage (fst (session h0 w h mdl lvl cs))) = sum_list (map cacheWrite (completed cs)) \<and>
   cost (usage (fst (session h0 w h mdl lvl cs))) = foldl (+) 0 (map cost (completed cs)) \<and>
   hasReceivedStats (fst (session h0 w h mdl lvl cs)) = (completed cs \<noteq> []) \<and>
   (completed cs \<noteq> [] \<longrightarrow>
      tokens (contextUsage (fst (session h0 w h mdl lvl cs))) = tokenTotal (last (completed cs)) \<and>
      take 5 (statsParts h' (fst (session h0 w h mdl lvl cs))) =
        [0x2191 # formatTokens h' (sum_list (map input (completed cs))),
         0x2193 # formatTokens h' (sum_list (map output (completed cs))),
         str ''R'' @ formatTokens h' (sum_list (map cacheRead (completed cs))),
         str ''W'' @ formatTokens h' (sum_list (map cacheWrite (completed cs))),
         str ''$'' @ toFixed h' (foldl (+) 0 (map cost (completed cs))) 3])"
proof -
  obtain p1 w1 where s: "start h mdl lvl (newPrintModeProgress h0, w) = (p1, w1)"
    by (cases "start h mdl lvl (newPrintModeProgress h0, w)")
  have p1: "isActive p1" "usage p1 = usage (newPrintModeProgress h0)" "\<not> hasReceivedStats p1"
    using s by (auto simp: start_state)
  from run_usage [OF p1(1), of cs w1] show ?thesis
    by (simp add: session_def s p1 new_usage statsParts_def)
qed

theorem C6_witness:
  "completed exampleCalls \<noteq> [] \<and>
   take 5 (statsParts exampleHost
       (fst (session exampleHost exampleWorld exampleHost (Some exampleModel) (str ''off'')
          exampleCalls))) =
     [0x2191 # str ''300'', 0x2193 # str ''150'', str ''R0'', str ''W0'', str ''$0.030'']"
  using C6_usage_totals [of exampleHost exampleWorld exampleHost "Some exampleModel" "str ''off''"
     exampleCalls exampleHost]
  by (simp add: completed_exampleCalls usageA_def usageB_def example_formats example_cost)
    (simp add: str_def)



text \<open>
  Claim C7, as amended. For a message of the assistant delivered as an update: if the
  content has a tool call, the activity becomes that of the last one, its name and its
  formatted arguments; else if it has a reasoning block, the activity becomes thinking,
  with the normalised text of the last one; else if it has a text block and the text of
  the last one is not empty, the activity becomes text, with its normalised text; else,
  also when the last text block is empty, the activity stays as it was.
\<close>

theorem C7_activity_priority_amended:
  assumes "msgRole msg = str ''assistant''"
  shows
  "(msgContent msg = pre @ ToolCall name args # post \<and> \<not> list_ex isToolCall post \<longrightarrow>
      applyEvent h (message_update msg) p =
        p\<lparr>currentToolName := name, currentActivity := formatToolCall h name args,
          currentActivityType := ToolActivity\<rparr>) \<and>
   (\<not> list_ex isToolCall (msgContent msg) \<and>
    msgContent msg = pre @ ThinkingContent t # post \<and> \<not> list_ex isThinking post \<longrightarrow>
      applyEvent h (message_update msg) p =
        p\<lparr>currentActivity := normalizeText t, currentActivityType := ThinkingActivity\<rparr>) \<and>
   (\<not> list_ex isToolCall (msgContent msg) \<and> \<not> list_ex isThinking (msgContent msg) \<and>
    msgContent msg = pre @ TextContent t # post \<and> \<not> list_ex isText post \<longrightarrow>
      applyEvent h (message_update msg) p =
        (if t \<noteq> []
         then p\<lparr>currentActivity := normalizeText t, currentActivityType := TextActivity\<rparr>
         else p)) \<and>
   (\<not> list_ex isToolCall (msgContent msg) \<and> \<not> list_ex isThinking (msgContent msg) \<and>
    \<not> list_ex isText (msgContent msg) \<longrightarrow>
      applyEvent h (message_update msg) p = p)"
proof -
  have ap: "applyEvent h (message_update msg) p = updateFromAssistantMessage h msg p"
    using assms by (simp add: applyEvent_def)
  have tool: "updateFromAssistantMessage h msg p =
        p\<lparr>currentToolName := name, currentActivity := formatToolCall h name args,
          currentActivityType := ToolActivity\<rparr>"
    if "msgContent msg = pre @ ToolCall name args # post" "\<not> list_ex isToolCall post"
    using last_filter_split [OF that(1), of isToolCall] that(2)
    by (simp add: updateFromAssistantMessage_def Let_def)
  have think: "updateFromAssistantMessage h msg p =
        p\<lparr>currentActivity := normalizeText t, currentActivityType := ThinkingActivity\<rparr>"
    if "\<not> list_ex isToolCall (msgContent msg)"
      "msgContent msg = pre @ ThinkingContent t # post" "\<not> list_ex isThinking post"
    using last_filter_split [OF that(2), of isThinking] that(3) filter_none [OF that(1)]
    by (simp add: updateFromAssistantMessage_def Let_def normalizeText_blank)
  have text_case: "updateFromAssistantMessage h msg p =
        (if t \<noteq> []
         then p\<lparr>currentActivity := normalizeText t, currentActivityType := TextActivity\<rparr>
         else p)"
    if "\<not> list_ex isToolCall (msgContent msg)" "\<not> list_ex isThinking (msgContent msg)"
      "msgContent msg = pre @ TextContent t # post" "\<not> list_ex isText post"
    using last_filter_split [OF that(3), of isText] that(4) filter_none [OF that(1)]
      filter_none [OF that(2)]
    by (simp add: updateFromAssistantMessage_def Let_def)
  have no_content: "updateFromAssistantMessage h msg p = p"
    if "\<not> list_ex isToolCall (msgContent msg)" "\<not> list_ex isThinking (msgContent msg)"
      "\<not> list_ex isText (msgContent msg)"
    using filter_none [OF that(1)] filter_none [OF that(2)] filter_none [OF that(3)]
    by (simp add: updateFromAssistantMessage_def Let_def)
  show ?thesis
    unfolding ap
  proof (intro conjI impI)
    assume "msgContent msg = pre @ ToolCall name args # post \<and> \<not> list_ex isToolCall post"
    then show "updateFromAssistantMessage h msg p =
        p\<lparr>currentToolName := name, currentActivity := formatToolCall h name args,
          currentActivityType := ToolActivity\<rparr>"
      using tool by blast
  next
    assume "\<not> list_ex isToolCall (msgContent msg) \<and>
      msgContent msg = pre @ ThinkingContent t # post \<and> \<not> list_ex isThinking post"
    then show "updateFromAssistantMessage h msg p =
        p\<lparr>currentActivity := normalizeText t, currentActivityType := ThinkingActivity\<rparr>"
      using think by blast
  next
    assume "\<not> list_ex isToolCall (msgContent msg) \<and> \<not> list_ex isThinking (msgContent msg) \<and>
      msgContent msg = pre @ TextContent t # post \<and> \<not> list_ex isText post"
    then show "updateFromAssistantMessage h msg p =
        (if t \<noteq> []
         then p\<lparr>currentActivity := normalizeText t, currentActivityType := TextActivity\<rparr>
         else p)"
      using text_case by blast
  next
    assume "\<not> list_ex isToolCall (msgContent msg) \<and> \<not> list_ex isThinking (msgContent msg) \<and>
      \<not> list_ex isText (msgContent msg)"
    then show "updateFromAssistantMessage h msg p = p"
      using no_content by blast
  qed
qed

theorem C7_activity_priority_witness:
  "applyEvent exampleHost
     (message_update (exampleMessage
        [TextContent (str ''hi''),
         ToolCall (str ''bash'') [str ''command'' \<mapsto> JString (str ''ls  -la'')],
         ThinkingContent (str ''hm'')] usageA))
     (fst exampleSession) =
     (fst exampleSession)\<lparr>currentToolName := str ''bash'', currentActivity := str ''ls -la'',
        currentActivityType := ToolActivity\<rparr> \<and>
   applyEvent exampleHost
     (message_update (exampleMessage
        [TextContent (str ''hi''), ThinkingContent (str '' a'' @ 0x0A # str '' b '')] usageA))
     (fst exampleSession) =
     (fst exampleSession)\<lparr>currentActivity := str ''a b'',
        currentActivityType := ThinkingActivity\<rparr> \<and>
   applyEvent exampleHost
     (message_update (exampleMessage [TextContent (str ''x  y'')] usageA))
     (fst exampleSession) =
     (fst exampleSession)\<lparr>currentActivity := str ''x y'', currentActivityType := TextActivity\<rparr> \<and>
   applyEvent exampleHost
     (message_update (exampleMessage [TextContent []] usageA))
     (fst exampleSession) = fst exampleSession \<and>
   applyEvent exampleHost (message_update (exampleMessage [] usageA)) (fst exampleSession) =
     fst exampleSession"
proof -
  have f: "formatToolCall exampleHost (str ''bash'') [str ''command'' \<mapsto> JString (str ''ls  -la'')]
      = str ''ls -la''"
    by code_simp
  have n1: "normalizeText (str '' a'' @ 0x0A # str '' b '') = str ''a b''" by code_simp
  have n2: "normalizeText (str ''x  y'') = str ''x y''" by code_simp
  have r: "msgRole (exampleMessage c usageA) = str ''assistant''" for c
    by (simp add: exampleMessage_def)
  have tool: "applyEvent exampleHost
     (message_update (exampleMessage
        [TextContent (str ''hi''),
         ToolCall (str ''bash'') [str ''command'' \<mapsto> JString (str ''ls  -la'')],
         ThinkingContent (str ''hm'')] usageA))
     (fst exampleSession) =
     (fst exampleSession)\<lparr>currentToolName := str ''bash'', currentActivity := str ''ls -la'',
        currentActivityType := ToolActivity\<rparr>"
    using C7_activity_priority_amended [OF r [of "[TextContent (str ''hi''),
         ToolCall (str ''bash'') [str ''command'' \<mapsto> JString (str ''ls  -la'')],
         ThinkingContent (str ''hm'')]"], of "[TextContent (str ''hi'')]" "str ''bash''"
      "[str ''command'' \<mapsto> JString (str ''ls  -la'')]" "[ThinkingContent (str ''hm'')]"
      exampleHost "fst exampleSession"]
    by (simp add: f exampleMessage_def)
  have think: "applyEvent exampleHost
     (message_update (exampleMessage
        [TextContent (str ''hi''), ThinkingContent (str '' a'' @ 0x0A # str '' b '')] usageA))
     (fst exampleSession) =
     (fst exampleSession)\<lparr>currentActivity := str ''a b'',
        currentActivityType := ThinkingActivity\<rparr>"
    using C7_activity_priority_amended [OF r [of "[TextContent (str ''hi''),
         ThinkingContent (str '' a'' @ 0x0A # str '' b '')]"], where pre = "[TextContent (str ''hi'')]"
      and t = "str '' a'' @ 0x0A # str '' b ''" and post = "[]" and h = exampleHost
      and p = "fst exampleSession"]
    by (simp add: n1 exampleMessage_def)
  have text_case: "applyEvent exampleHost
     (message_update (exampleMessage [TextContent (str ''x  y'')] usageA))
     (fst exampleSession) =
     (fst exampleSession)\<lparr>currentActivity := str ''x y'', currentActivityType := TextActivity\<rparr>"
    using C7_activity_priority_amended [OF r [of "[TextContent (str ''x  y'')]"],
      where pre = "[]" and t = "str ''x  y''"
      and post = "[]" and h = exampleHost and p = "fst exampleSession"]
    by (simp add: n2 exampleMessage_def) (simp add: str_def)
  have empty: "applyEvent exampleHost
     (message_update (exampleMessage [TextContent []] usageA))
     (fst exampleSession) = fst exampleSession"
    using C7_activity_priority_amended [OF r [of "[TextContent []]"],
      where pre = "[]" and t = "[]"
      and post = "[]" and h = exampleHost and p = "fst exampleSession"]
    by (simp add: exampleMessage_def)
  have nothing_there: "applyEvent exampleHost (message_update (exampleMessage [] usageA))
      (fst exampleSession) = fst exampleSession"
    using C7_activity_priority_amended [OF r [of "[]"],
      where h = exampleHost and p = "fst exampleSession"]
    by (simp add: exampleMessage_def)
  show ?thesis
    using tool think text_case empty nothing_there by (simp only: simp_thms)
qed

text \<open>
  Claim C7 as stated fails on a message whose only text block is empty: the content has
  a generated-text block, and the activity is still the system status of before, not a
  text activity.
\<close>

theorem C7_activity_priority_counterexample:
  "list_ex isText (msgContent (exampleMessage [TextContent []] usageA)) \<and>
   currentActivityType
     (applyEvent exampleHost (message_update (exampleMessage [TextContent []] usageA))
        (fst exampleSession)) = SystemActivity \<and>
   currentActivity
     (applyEvent exampleHost (message_update (exampleMessage [TextContent []] usageA))
        (fst exampleSession)) = str ''Starting...''"
  by (simp add: exampleMessage_def applyEvent_def updateFromAssistantMessage_def
      exampleSession_def start_state)

end
